theory Spec2Isabelle
  imports Main "HOL-Library.Word" "HOL-Library.Sublist"
begin

section \<open>Python values used by the MSG/TXT tools\<close>

text \<open>
  A Python \<^verbatim>\<open>str\<close> is a sequence of Unicode code points. A character is modelled by
  its code point, so \<^verbatim>\<open>ord\<close> is the identity and \<^verbatim>\<open>chr\<close> is the range check
  of the interpreter. Code units are Python integers that are never negative here (they
  are read with the unsigned format \<^verbatim>\<open>H\<close> or produced by \<^verbatim>\<open>ord\<close>), hence
  natural numbers. A byte string is a list of 8-bit words.
\<close>

type_synonym uchar = nat
type_synonym ustring = "uchar list"
type_synonym byte = "8 word"

datatype error =
    FileTooSmall
  | TruncatedBlockTable
  | InvalidBlockBounds
  | UnknownGlyph uchar
  | BlockCountsDiffer
  | StructError
  | ChrOutOfRange
  | IndexError

text \<open>String literals of the sources, as code point lists.\<close>

definition ustr :: "string \<Rightarrow> ustring" where
  "ustr s = map of_char s"

definition LF :: uchar where
  "LF = 0x0A"

text \<open>\<^verbatim>\<open>chr(v)\<close> raises ValueError outside \<^verbatim>\<open>range(0x110000)\<close>.\<close>

definition chr :: "nat \<Rightarrow> error + uchar" where
  "chr v = (if v \<le> 0x10FFFF then Inr v else Inl ChrOutOfRange)"

text \<open>\<^verbatim>\<open>text.startswith(tag, i)\<close>\<close>

definition startswith :: "ustring \<Rightarrow> ustring \<Rightarrow> nat \<Rightarrow> bool" where
  "startswith text tag i = (take (length tag) (drop i text) = tag)"

text \<open>\<^verbatim>\<open>'a' <= ch <= 'z'\<close> on one-character strings compares code points.\<close>

definition is_lower_az :: "uchar \<Rightarrow> bool" where
  "is_lower_az ch = (0x61 \<le> ch \<and> ch \<le> 0x7A)"

text \<open>
  \<^verbatim>\<open>struct.pack('>H', v)\<close> raises \<^verbatim>\<open>struct.error\<close> unless
  \<^verbatim>\<open>0 <= v <= 65535\<close>; \<^verbatim>\<open>struct.unpack('>nH', raw)\<close> needs exactly
  \<^verbatim>\<open>2*n\<close> bytes.
\<close>

definition pack_H :: "nat \<Rightarrow> error + byte list" where
  "pack_H v = (if v \<le> 0xFFFF then Inr [word_of_nat (v div 256), word_of_nat (v mod 256)]
               else Inl StructError)"

fun pack_units :: "nat list \<Rightarrow> error + byte list" where
  "pack_units [] = Inr []"
| "pack_units (v # vs) =
     (case pack_H v of Inl e \<Rightarrow> Inl e
      | Inr b \<Rightarrow> (case pack_units vs of Inl e \<Rightarrow> Inl e | Inr bs \<Rightarrow> Inr (b @ bs)))"

fun unpack_pairs :: "byte list \<Rightarrow> nat list" where
  "unpack_pairs (hi # lo # bs) = (unat hi * 256 + unat lo) # unpack_pairs bs"
| "unpack_pairs bs = []"

definition unpack_units :: "byte list \<Rightarrow> error + nat list" where
  "unpack_units raw = (if even (length raw) then Inr (unpack_pairs raw) else Inl StructError)"

text \<open>The slice \<^verbatim>\<open>data[start:end]\<close> for non-negative bounds: it is cut at the end
  of the data and empty when \<^verbatim>\<open>end <= start\<close>.\<close>

definition slice :: "'a list \<Rightarrow> nat \<Rightarrow> nat \<Rightarrow> 'a list" where
  "slice data start end' = take (end' - start) (drop start data)"

section \<open>duomsgEN.pyw: settings and the code-unit transcoder\<close>

definition BLOCK_SEPARATOR :: ustring where
  "BLOCK_SEPARATOR = ustr ''###''"

definition TAG_NEWLINES :: bool where
  "TAG_NEWLINES = True"

definition NL_TAG_8016 :: ustring where
  "NL_TAG_8016 = ustr ''/n''"

definition NL_TAG_000A :: ustring where
  "NL_TAG_000A = ustr ''/nn''"

definition NEWLINE_000A :: nat where
  "NEWLINE_000A = 0x000A"

definition NEWLINE_8016 :: nat where
  "NEWLINE_8016 = 0x8016"

definition DEFAULT_ENCODE_NEWLINE :: nat where
  "DEFAULT_ENCODE_NEWLINE = 0x8016"

record Entry =
  offset :: nat
  length_units :: nat

text \<open>The body of the \<^verbatim>\<open>for v in units\<close> loop of \<^verbatim>\<open>_decode_units_to_text\<close>:
  what one code unit appends to \<^verbatim>\<open>out\<close>.\<close>

definition decode_unit :: "bool \<Rightarrow> nat \<Rightarrow> error + ustring" where
  "decode_unit tag_newlines v =
     (if v = NEWLINE_000A then Inr ((if tag_newlines then NL_TAG_000A else []) @ [LF])
      else if v = NEWLINE_8016 then Inr ((if tag_newlines then NL_TAG_8016 else []) @ [LF])
      else if v \<ge> 0x80 then (case chr (v - 0x80) of Inl e \<Rightarrow> Inl e | Inr c \<Rightarrow> Inr [c])
      else (case chr v of Inl e \<Rightarrow> Inl e | Inr c \<Rightarrow> Inr [c]))"

fun decode_units_to_text :: "nat list \<Rightarrow> bool \<Rightarrow> error + ustring" where
  "decode_units_to_text [] tag_newlines = Inr []"
| "decode_units_to_text (v # units) tag_newlines =
     (case decode_unit tag_newlines v of Inl e \<Rightarrow> Inl e
      | Inr s \<Rightarrow>
          (case decode_units_to_text units tag_newlines of Inl e \<Rightarrow> Inl e
           | Inr out \<Rightarrow> Inr (s @ out)))"

text \<open>The \<^verbatim>\<open>while i < n\<close> loop of \<^verbatim>\<open>_encode_text_to_units\<close>, with its index
  \<^verbatim>\<open>i\<close> and the list \<^verbatim>\<open>units\<close> built so far.\<close>

function encode_loop :: "ustring \<Rightarrow> nat \<Rightarrow> nat \<Rightarrow> nat list \<Rightarrow> nat list" where
  "encode_loop text default_newline_code i units =
     (if i < length text then
        (if TAG_NEWLINES \<and> startswith text NL_TAG_8016 i
            \<and> i + length NL_TAG_8016 < length text
            \<and> text ! (i + length NL_TAG_8016) = LF
         then encode_loop text default_newline_code (i + length NL_TAG_8016 + 1)
                (units @ [NEWLINE_8016])
         else if TAG_NEWLINES \<and> startswith text NL_TAG_000A i
            \<and> i + length NL_TAG_000A < length text
            \<and> text ! (i + length NL_TAG_000A) = LF
         then encode_loop text default_newline_code (i + length NL_TAG_000A + 1)
                (units @ [NEWLINE_000A])
         else if text ! i = LF
         then encode_loop text default_newline_code (i + 1) (units @ [default_newline_code])
         else if is_lower_az (text ! i)
         then encode_loop text default_newline_code (i + 1) (units @ [text ! i + 0x80])
         else encode_loop text default_newline_code (i + 1) (units @ [text ! i]))
      else units)"
  by pat_completeness auto
termination
  by (relation "measure (\<lambda>(text, d, i, units). length text - i)") auto

declare encode_loop.simps [simp del]

definition encode_text_to_units :: "ustring \<Rightarrow> nat \<Rightarrow> nat list" where
  "encode_text_to_units text default_newline_code = encode_loop text default_newline_code 0 []"

section \<open>duomsgEN.pyw: the container\<close>

text \<open>Two big-endian 16-bit integers read at \<^verbatim>\<open>data[off:off + 4]\<close>; the callers
  have checked that the four bytes exist.\<close>

definition u16_at :: "byte list \<Rightarrow> nat \<Rightarrow> nat" where
  "u16_at data off = unat (data ! off) * 256 + unat (data ! (off + 1))"

text \<open>The loop \<^verbatim>\<open>for _ in range(count)\<close> over the block table.\<close>

fun read_entries :: "byte list \<Rightarrow> nat \<Rightarrow> nat \<Rightarrow> Entry list \<Rightarrow> error + (Entry list \<times> nat)" where
  "read_entries data 0 off entries = Inr (entries, off)"
| "read_entries data (Suc k) off entries =
     (if off + 4 > length data then Inl TruncatedBlockTable
      else read_entries data k (off + 4)
             (entries @ [\<lparr>offset = u16_at data off, length_units = u16_at data (off + 2)\<rparr>]))"

text \<open>The header part of \<^verbatim>\<open>decode_msg_to_blocks\<close>; the experimental tool has the same
  code as the function \<^verbatim>\<open>read_msg_entries_and_textstart\<close>.\<close>

definition read_msg_entries_and_textstart :: "byte list \<Rightarrow> error + (Entry list \<times> nat)" where
  "read_msg_entries_and_textstart data =
     (if length data < 4 then Inl FileTooSmall
      else read_entries data (u16_at data 2) 4 [])"

text \<open>The loop \<^verbatim>\<open>for e in entries\<close> of \<^verbatim>\<open>decode_msg_to_blocks\<close>, with its bounds
  check.\<close>

fun decode_entries :: "byte list \<Rightarrow> nat \<Rightarrow> bool \<Rightarrow> Entry list \<Rightarrow> error + ustring list" where
  "decode_entries data text_start tag_newlines [] = Inr []"
| "decode_entries data text_start tag_newlines (e # es) =
     (let start = text_start + offset e * 2;
          end' = text_start + (offset e + length_units e) * 2
      in if \<not> (text_start \<le> start \<and> start \<le> end' \<and> end' \<le> length data)
         then Inl InvalidBlockBounds
         else (case unpack_units (slice data start end') of Inl err \<Rightarrow> Inl err
               | Inr units \<Rightarrow>
                  (case decode_units_to_text units tag_newlines of Inl err \<Rightarrow> Inl err
                   | Inr b \<Rightarrow>
                      (case decode_entries data text_start tag_newlines es of
                         Inl err \<Rightarrow> Inl err
                       | Inr blocks \<Rightarrow> Inr (b # blocks)))))"

definition decode_msg_to_blocks :: "byte list \<Rightarrow> bool \<Rightarrow> error + ustring list" where
  "decode_msg_to_blocks data tag_newlines =
     (case read_msg_entries_and_textstart data of Inl err \<Rightarrow> Inl err
      | Inr (entries, text_start) \<Rightarrow> decode_entries data text_start tag_newlines entries)"

text \<open>\<^verbatim>\<open>struct.pack('>HH', a, b)\<close> and the join of the packed table entries.\<close>

definition pack_HH :: "nat \<Rightarrow> nat \<Rightarrow> error + byte list" where
  "pack_HH a b = pack_units [a, b]"

fun pack_entries :: "Entry list \<Rightarrow> error + byte list" where
  "pack_entries [] = Inr []"
| "pack_entries (e # es) =
     (case pack_HH (offset e) (length_units e) of Inl err \<Rightarrow> Inl err
      | Inr b \<Rightarrow> (case pack_entries es of Inl err \<Rightarrow> Inl err | Inr bs \<Rightarrow> Inr (b @ bs)))"

text \<open>The tail shared by both encoders: pack the text area, the table and the header,
  with \<^verbatim>\<open>full_size\<close> computed from the packed parts.\<close>

definition assemble_msg :: "nat list \<Rightarrow> Entry list \<Rightarrow> error + byte list" where
  "assemble_msg all_units entries =
     (case pack_units all_units of Inl err \<Rightarrow> Inl err
      | Inr text_bytes \<Rightarrow>
         (case pack_entries entries of Inl err \<Rightarrow> Inl err
          | Inr header_table \<Rightarrow>
             (let full_size = 4 + length header_table + length text_bytes
              in case pack_HH full_size (length entries) of Inl err \<Rightarrow> Inl err
                 | Inr header \<Rightarrow> Inr (header @ header_table @ text_bytes))))"

text \<open>The loop \<^verbatim>\<open>for b in blocks\<close> of \<^verbatim>\<open>encode_blocks_to_msg\<close>.\<close>

fun encode_blocks_loop ::
  "ustring list \<Rightarrow> nat \<Rightarrow> nat list \<Rightarrow> Entry list \<Rightarrow> nat \<Rightarrow> nat list \<times> Entry list" where
  "encode_blocks_loop [] default_newline_code all_units entries cur_off = (all_units, entries)"
| "encode_blocks_loop (b # blocks) default_newline_code all_units entries cur_off =
     (let units = encode_text_to_units b default_newline_code
      in encode_blocks_loop blocks default_newline_code (all_units @ units)
           (entries @ [\<lparr>offset = cur_off, length_units = length units\<rparr>])
           (cur_off + length units))"

definition encode_blocks_to_msg :: "ustring list \<Rightarrow> nat \<Rightarrow> error + byte list" where
  "encode_blocks_to_msg blocks default_newline_code =
     (case encode_blocks_loop blocks default_newline_code [] [] 0 of
        (all_units, entries) \<Rightarrow> assemble_msg all_units entries)"

section \<open>duomsgJP (Experimental).pyw: settings, Latin decoding and container reading\<close>

definition JP_NL_TAG_8016 :: ustring where
  "JP_NL_TAG_8016 = ustr ''<NL_8016>''"

definition JP_NL_TAG_000A :: ustring where
  "JP_NL_TAG_000A = ustr ''<NL_000A>''"

datatype policy = PolicyError | PolicyPlaceholder | PolicySkip | PolicyOther

definition ENCODE_UNKNOWN_POLICY :: policy where
  "ENCODE_UNKNOWN_POLICY = PolicyError"

definition is_ascii_printable :: "nat \<Rightarrow> bool" where
  "is_ascii_printable u = ((0x20 \<le> u \<and> u \<le> 0x7E) \<or> u = 0x09)"

definition decode_unit_english :: "bool \<Rightarrow> nat \<Rightarrow> error + ustring" where
  "decode_unit_english tag_newlines v =
     (if v = NEWLINE_000A then Inr ((if tag_newlines then JP_NL_TAG_000A else []) @ [LF])
      else if v = NEWLINE_8016 then Inr ((if tag_newlines then JP_NL_TAG_8016 else []) @ [LF])
      else if v \<ge> 0x80 \<and> is_ascii_printable (v - 0x80)
      then (case chr (v - 0x80) of Inl e \<Rightarrow> Inl e | Inr c \<Rightarrow> Inr [c])
      else (case chr v of Inl e \<Rightarrow> Inl e | Inr c \<Rightarrow> Inr [c]))"

fun decode_units_english :: "nat list \<Rightarrow> bool \<Rightarrow> error + ustring" where
  "decode_units_english [] tag_newlines = Inr []"
| "decode_units_english (v # units) tag_newlines =
     (case decode_unit_english tag_newlines v of Inl e \<Rightarrow> Inl e
      | Inr s \<Rightarrow>
          (case decode_units_english units tag_newlines of Inl e \<Rightarrow> Inl e
           | Inr out \<Rightarrow> Inr (s @ out)))"

text \<open>The loop \<^verbatim>\<open>for e in entries\<close> of \<^verbatim>\<open>decode_msg_to_blocks_english\<close>: the
  slice is taken without a bounds check.\<close>

fun decode_entries_english :: "byte list \<Rightarrow> nat \<Rightarrow> bool \<Rightarrow> Entry list \<Rightarrow> error + ustring list" where
  "decode_entries_english data text_start tag_newlines [] = Inr []"
| "decode_entries_english data text_start tag_newlines (e # es) =
     (let start = text_start + offset e * 2;
          end' = text_start + (offset e + length_units e) * 2
      in case unpack_units (slice data start end') of Inl err \<Rightarrow> Inl err
         | Inr units \<Rightarrow>
            (case decode_units_english units tag_newlines of Inl err \<Rightarrow> Inl err
             | Inr b \<Rightarrow>
                (case decode_entries_english data text_start tag_newlines es of
                   Inl err \<Rightarrow> Inl err
                 | Inr blocks \<Rightarrow> Inr (b # blocks))))"

definition decode_msg_to_blocks_english :: "byte list \<Rightarrow> bool \<Rightarrow> error + ustring list" where
  "decode_msg_to_blocks_english data tag_newlines =
     (case read_msg_entries_and_textstart data of Inl err \<Rightarrow> Inl err
      | Inr (entries, text_start) \<Rightarrow> decode_entries_english data text_start tag_newlines entries)"

text \<open>The loop of \<^verbatim>\<open>_read_all_blocks_units\<close>.\<close>

fun read_entries_units :: "byte list \<Rightarrow> nat \<Rightarrow> Entry list \<Rightarrow> error + nat list list" where
  "read_entries_units data text_start [] = Inr []"
| "read_entries_units data text_start (e # es) =
     (let start = text_start + offset e * 2;
          end' = text_start + (offset e + length_units e) * 2
      in case unpack_units (slice data start end') of Inl err \<Rightarrow> Inl err
         | Inr units \<Rightarrow>
            (case read_entries_units data text_start es of Inl err \<Rightarrow> Inl err
             | Inr result \<Rightarrow> Inr (units # result)))"

definition read_all_blocks_units :: "byte list \<Rightarrow> error + nat list list" where
  "read_all_blocks_units data =
     (case read_msg_entries_and_textstart data of Inl err \<Rightarrow> Inl err
      | Inr (entries, text_start) \<Rightarrow> read_entries_units data text_start entries)"

section \<open>duomsgJP (Experimental).pyw: decoding and encoding through a mapping\<close>

text \<open>The format \<^verbatim>\<open>f'<U+{u:04X}>'\<close>: uppercase hexadecimal digits, padded with
  zeros to at least four.\<close>

definition hex_digit :: "nat \<Rightarrow> uchar" where
  "hex_digit d = (if d < 10 then 0x30 + d else 0x41 + (d - 10))"

function hex_upper :: "nat \<Rightarrow> ustring" where
  "hex_upper n = (if n < 16 then [hex_digit n] else hex_upper (n div 16) @ [hex_digit (n mod 16)])"
  by pat_completeness auto
termination
  by (relation "measure (\<lambda>n. n)") auto

declare hex_upper.simps [simp del]

definition format_04X :: "nat \<Rightarrow> ustring" where
  "format_04X u = replicate (4 - length (hex_upper u)) 0x30 @ hex_upper u"

definition placeholder :: "nat \<Rightarrow> ustring" where
  "placeholder u = ustr ''<U+'' @ format_04X u @ ustr ''>''"

text \<open>The body of the loop \<^verbatim>\<open>for u in units\<close> of
  \<^verbatim>\<open>decode_msg_to_blocks_with_map\<close>. The values of \<^verbatim>\<open>unit_to_char\<close> are
  strings. \<^verbatim>\<open>chr(u - 0x80)\<close> is only called on a printable ASCII value, where it
  cannot raise.\<close>

definition decode_unit_with_map :: "(nat \<rightharpoonup> ustring) \<Rightarrow> bool \<Rightarrow> nat \<Rightarrow> ustring" where
  "decode_unit_with_map unit_to_char tag_newlines u =
     (if u = NEWLINE_000A then (if tag_newlines then JP_NL_TAG_000A else []) @ [LF]
      else if u = NEWLINE_8016 then (if tag_newlines then JP_NL_TAG_8016 else []) @ [LF]
      else (case unit_to_char u of
              Some g \<Rightarrow> g
            | None \<Rightarrow>
                if u \<ge> 0x80 \<and> is_ascii_printable (u - 0x80) then [u - 0x80]
                else placeholder u))"

definition decode_units_with_map :: "(nat \<rightharpoonup> ustring) \<Rightarrow> bool \<Rightarrow> nat list \<Rightarrow> ustring" where
  "decode_units_with_map unit_to_char tag_newlines units =
     concat (map (decode_unit_with_map unit_to_char tag_newlines) units)"

fun decode_entries_with_map ::
  "byte list \<Rightarrow> nat \<Rightarrow> (nat \<rightharpoonup> ustring) \<Rightarrow> bool \<Rightarrow> Entry list \<Rightarrow> error + ustring list" where
  "decode_entries_with_map data text_start unit_to_char tag_newlines [] = Inr []"
| "decode_entries_with_map data text_start unit_to_char tag_newlines (e # es) =
     (let start = text_start + offset e * 2;
          end' = text_start + (offset e + length_units e) * 2
      in case unpack_units (slice data start end') of Inl err \<Rightarrow> Inl err
         | Inr units \<Rightarrow>
            (case decode_entries_with_map data text_start unit_to_char tag_newlines es of
               Inl err \<Rightarrow> Inl err
             | Inr blocks \<Rightarrow> Inr (decode_units_with_map unit_to_char tag_newlines units # blocks)))"

definition decode_msg_to_blocks_with_map ::
  "byte list \<Rightarrow> (nat \<rightharpoonup> ustring) \<Rightarrow> bool \<Rightarrow> error + ustring list" where
  "decode_msg_to_blocks_with_map data unit_to_char tag_newlines =
     (case read_msg_entries_and_textstart data of Inl err \<Rightarrow> Inl err
      | Inr (entries, text_start) \<Rightarrow>
          decode_entries_with_map data text_start unit_to_char tag_newlines entries)"

text \<open>The loop \<^verbatim>\<open>while i < len(block)\<close> of \<^verbatim>\<open>encode_blocks_with_map\<close>. The
  module constant \<^verbatim>\<open>ENCODE_UNKNOWN_POLICY\<close> is the parameter \<open>pol\<close>, so that
  each of its values can be examined; \<open>PolicyOther\<close> stands for any string other than
  the three documented ones.\<close>

function encode_map_loop ::
  "policy \<Rightarrow> (uchar \<rightharpoonup> nat) \<Rightarrow> nat \<Rightarrow> ustring \<Rightarrow> nat \<Rightarrow> nat list \<Rightarrow> error + nat list" where
  "encode_map_loop pol char_to_unit default_newline block i units =
     (if i < length block then
        (if TAG_NEWLINES \<and> startswith block JP_NL_TAG_8016 i
            \<and> i + length JP_NL_TAG_8016 < length block
            \<and> block ! (i + length JP_NL_TAG_8016) = LF
         then encode_map_loop pol char_to_unit default_newline block
                (i + length JP_NL_TAG_8016 + 1) (units @ [NEWLINE_8016])
         else if TAG_NEWLINES \<and> startswith block JP_NL_TAG_000A i
            \<and> i + length JP_NL_TAG_000A < length block
            \<and> block ! (i + length JP_NL_TAG_000A) = LF
         then encode_map_loop pol char_to_unit default_newline block
                (i + length JP_NL_TAG_000A + 1) (units @ [NEWLINE_000A])
         else if block ! i = LF
         then encode_map_loop pol char_to_unit default_newline block (i + 1)
                (units @ [default_newline])
         else (case char_to_unit (block ! i) of
                 Some u \<Rightarrow>
                   encode_map_loop pol char_to_unit default_newline block (i + 1) (units @ [u])
               | None \<Rightarrow>
                   if is_lower_az (block ! i)
                   then encode_map_loop pol char_to_unit default_newline block (i + 1)
                          (units @ [block ! i + 0x80])
                   else (case pol of
                           PolicyError \<Rightarrow> Inl (UnknownGlyph (block ! i))
                         | PolicyPlaceholder \<Rightarrow>
                             encode_map_loop pol char_to_unit default_newline block (i + 1)
                               (units @ [0x3F])
                         | PolicySkip \<Rightarrow>
                             encode_map_loop pol char_to_unit default_newline block (i + 1) units
                         | PolicyOther \<Rightarrow>
                             encode_map_loop pol char_to_unit default_newline block (i + 1)
                               (units @ [block ! i]))))
      else Inr units)"
  by pat_completeness auto
termination
  by (relation "measure (\<lambda>(pol, m, d, block, i, units). length block - i)") auto

declare encode_map_loop.simps [simp del]

definition encode_block_with_map ::
  "policy \<Rightarrow> (uchar \<rightharpoonup> nat) \<Rightarrow> nat \<Rightarrow> ustring \<Rightarrow> error + nat list" where
  "encode_block_with_map pol char_to_unit default_newline block =
     encode_map_loop pol char_to_unit default_newline block 0 []"

text \<open>The loop \<^verbatim>\<open>for block in blocks\<close> of \<^verbatim>\<open>encode_blocks_with_map\<close>.\<close>

fun encode_map_blocks_loop ::
  "policy \<Rightarrow> (uchar \<rightharpoonup> nat) \<Rightarrow> nat \<Rightarrow> ustring list \<Rightarrow> nat list \<Rightarrow> Entry list
   \<Rightarrow> error + (nat list \<times> Entry list)" where
  "encode_map_blocks_loop pol char_to_unit default_newline [] all_units entries =
     Inr (all_units, entries)"
| "encode_map_blocks_loop pol char_to_unit default_newline (block # blocks) all_units entries =
     (case encode_block_with_map pol char_to_unit default_newline block of
        Inl err \<Rightarrow> Inl err
      | Inr units \<Rightarrow>
          encode_map_blocks_loop pol char_to_unit default_newline blocks (all_units @ units)
            (entries @ [\<lparr>offset = length all_units, length_units = length units\<rparr>]))"

definition encode_blocks_with_policy ::
  "policy \<Rightarrow> ustring list \<Rightarrow> (uchar \<rightharpoonup> nat) \<Rightarrow> nat \<Rightarrow> error + byte list" where
  "encode_blocks_with_policy pol blocks char_to_unit default_newline =
     (case encode_map_blocks_loop pol char_to_unit default_newline blocks [] [] of
        Inl err \<Rightarrow> Inl err
      | Inr (all_units, entries) \<Rightarrow> assemble_msg all_units entries)"

definition encode_blocks_with_map ::
  "ustring list \<Rightarrow> (uchar \<rightharpoonup> nat) \<Rightarrow> nat \<Rightarrow> error + byte list" where
  "encode_blocks_with_map blocks char_to_unit default_newline =
     encode_blocks_with_policy ENCODE_UNKNOWN_POLICY blocks char_to_unit default_newline"

section \<open>TXT documents: splitting into blocks and joining (both tools, same code)\<close>

text \<open>
  \<^verbatim>\<open>str.splitlines()\<close> splits at the line boundaries of the language reference
  (LF, CR, CR LF, VT, FF, FS, GS, RS, NEL, LINE SEPARATOR, PARAGRAPH SEPARATOR), drops the
  boundaries and yields no empty last line after a final boundary. The first argument
  holds the characters of the line being read.
\<close>

definition CR :: uchar where
  "CR = 0x0D"

definition is_linebreak :: "uchar \<Rightarrow> bool" where
  "is_linebreak c = (c = 0x0A \<or> c = 0x0B \<or> c = 0x0C \<or> c = 0x0D \<or> c = 0x1C \<or> c = 0x1D
                     \<or> c = 0x1E \<or> c = 0x85 \<or> c = 0x2028 \<or> c = 0x2029)"

fun splitlines_from :: "ustring \<Rightarrow> ustring \<Rightarrow> ustring list" where
  "splitlines_from cur [] = (if cur = [] then [] else [cur])"
| "splitlines_from cur (c # cs) =
     (if c = CR then
        (case cs of
           [] \<Rightarrow> cur # splitlines_from [] []
         | d # ds \<Rightarrow> if d = LF then cur # splitlines_from [] ds else cur # splitlines_from [] cs)
      else if is_linebreak c then cur # splitlines_from [] cs
      else splitlines_from (cur @ [c]) cs)"

definition splitlines :: "ustring \<Rightarrow> ustring list" where
  "splitlines s = splitlines_from [] s"

text \<open>\<^verbatim>\<open>str.strip()\<close> removes leading and trailing whitespace, that is the characters
  for which \<^verbatim>\<open>str.isspace()\<close> holds.\<close>

definition is_space :: "uchar \<Rightarrow> bool" where
  "is_space c = ((0x09 \<le> c \<and> c \<le> 0x0D) \<or> (0x1C \<le> c \<and> c \<le> 0x20) \<or> c = 0x85 \<or> c = 0xA0
                 \<or> c = 0x1680 \<or> (0x2000 \<le> c \<and> c \<le> 0x200A) \<or> c = 0x2028 \<or> c = 0x2029
                 \<or> c = 0x202F \<or> c = 0x205F \<or> c = 0x3000)"

definition strip :: "ustring \<Rightarrow> ustring" where
  "strip s = rev (dropWhile is_space (rev (dropWhile is_space s)))"

text \<open>\<^verbatim>\<open>b.rstrip(LF)\<close>: the line breaks at the end are removed.\<close>

definition rstrip_newlines :: "ustring \<Rightarrow> ustring" where
  "rstrip_newlines b = rev (dropWhile (\<lambda>c. c = LF) (rev b))"

text \<open>\<^verbatim>\<open>sep.join(parts)\<close>\<close>

fun join :: "ustring \<Rightarrow> ustring list \<Rightarrow> ustring" where
  "join sep [] = []"
| "join sep [x] = x"
| "join sep (x # y # ys) = x @ sep @ join sep (y # ys)"

text \<open>The loop \<^verbatim>\<open>for line in txt_text.splitlines()\<close> of
  \<^verbatim>\<open>split_txt_into_blocks\<close> with its two lists.\<close>

fun split_loop :: "ustring list \<Rightarrow> ustring list \<Rightarrow> ustring list \<Rightarrow> ustring list \<times> ustring list" where
  "split_loop [] parts cur = (parts, cur)"
| "split_loop (line # lines) parts cur =
     (if strip line = BLOCK_SEPARATOR then split_loop lines (parts @ [join [LF] cur]) []
      else split_loop lines parts (cur @ [line]))"

definition split_txt_into_blocks :: "ustring \<Rightarrow> ustring list" where
  "split_txt_into_blocks txt_text =
     (case split_loop (splitlines txt_text) [] [] of
        (parts0, cur) \<Rightarrow>
          (let parts = (if cur \<noteq> [] \<or> parts0 = [] then parts0 @ [join [LF] cur] else parts0)
           in if parts \<noteq> [] \<and> last parts = [] \<and> length parts > 1 then butlast parts
              else parts))"

definition make_txt_from_blocks :: "ustring list \<Rightarrow> ustring" where
  "make_txt_from_blocks blocks =
     join ([LF] @ BLOCK_SEPARATOR @ [LF]) (map rstrip_newlines blocks)
     @ ([LF] @ BLOCK_SEPARATOR @ [LF])"

section \<open>duomsgJP (Experimental).pyw: the mapping trainer\<close>

text \<open>\<^verbatim>\<open>s.replace(old, '')\<close> for a non-empty \<^verbatim>\<open>old\<close>: the occurrences are
  removed from left to right, without overlap.\<close>

fun remove_all :: "ustring \<Rightarrow> ustring \<Rightarrow> ustring" where
  "remove_all old [] = []"
| "remove_all old (c # cs) =
     (if old \<noteq> [] \<and> take (length old) (c # cs) = old
      then remove_all old (drop (length old - 1) cs)
      else c # remove_all old cs)"

definition strip_nl_tags_keep_newline :: "ustring \<Rightarrow> ustring" where
  "strip_nl_tags_keep_newline s = remove_all JP_NL_TAG_000A (remove_all JP_NL_TAG_8016 s)"

text \<open>
  A \<^verbatim>\<open>Counter\<close> and the \<^verbatim>\<open>defaultdict(Counter)\<close> are dictionaries, which keep
  their keys in insertion order: association lists with distinct keys.
  \<^verbatim>\<open>ctr[k] += n\<close> changes the count of a present key in place and appends a new key.
\<close>

type_synonym 'k counter = "('k \<times> nat) list"

fun counter_add :: "'k \<Rightarrow> nat \<Rightarrow> 'k counter \<Rightarrow> 'k counter" where
  "counter_add k n [] = [(k, n)]"
| "counter_add k n ((k', c) # ctr) =
     (if k = k' then (k', c + n) # ctr else (k', c) # counter_add k n ctr)"

text \<open>\<^verbatim>\<open>counts[a][b] += n\<close>\<close>

fun counts_add :: "'a \<Rightarrow> 'b \<Rightarrow> nat \<Rightarrow> ('a \<times> 'b counter) list \<Rightarrow> ('a \<times> 'b counter) list" where
  "counts_add a b n [] = [(a, [(b, n)])]"
| "counts_add a b n ((a', ctr) # counts) =
     (if a = a' then (a', counter_add b n ctr) # counts
      else (a', ctr) # counts_add a b n counts)"

text \<open>\<^verbatim>\<open>ctr.most_common(1)[0]\<close>: \<^verbatim>\<open>most_common(1)\<close> is
  \<^verbatim>\<open>heapq.nlargest(1, ...)\<close>, which is \<^verbatim>\<open>max\<close> over the items in dictionary
  order with the count as key, so the first item with the largest count; indexing the
  empty list raises IndexError.\<close>

fun most_common1 :: "'k counter \<Rightarrow> error + ('k \<times> nat)" where
  "most_common1 [] = Inl IndexError"
| "most_common1 (x # xs) = Inr (fold (\<lambda>y best. if snd y > snd best then y else best) xs x)"

text \<open>The inner loop \<^verbatim>\<open>while j < len(ref) and ref[j] == LF\<close>.\<close>

function skip_newlines :: "ustring \<Rightarrow> nat \<Rightarrow> nat" where
  "skip_newlines ref j = (if j < length ref \<and> ref ! j = LF then skip_newlines ref (j + 1) else j)"
  by pat_completeness auto
termination
  by (relation "measure (\<lambda>(ref, j). length ref - j)") auto

declare skip_newlines.simps [simp del]

text \<open>The loop \<^verbatim>\<open>for u in ub\<close> over the code units of one block, with the cursor
  \<^verbatim>\<open>j\<close> into the reference text; \<^verbatim>\<open>break\<close> ends it.\<close>

fun align_block ::
  "nat list \<Rightarrow> ustring \<Rightarrow> nat \<Rightarrow> (nat \<times> uchar counter) list \<Rightarrow> (nat \<times> uchar counter) list" where
  "align_block [] ref j counts = counts"
| "align_block (u # ub) ref j counts =
     (if u = NEWLINE_000A \<or> u = NEWLINE_8016
      then align_block ub ref (if j < length ref \<and> ref ! j = LF then j + 1 else j) counts
      else (let j' = skip_newlines ref j
            in if j' \<ge> length ref then counts
               else align_block ub ref (j' + 1) (counts_add u (ref ! j') 1 counts)))"

text \<open>The loop \<^verbatim>\<open>for ub, tb in zip(msg_blocks_units, txt_blocks)\<close>.\<close>

fun align_blocks ::
  "(nat list \<times> ustring) list \<Rightarrow> (nat \<times> uchar counter) list \<Rightarrow> (nat \<times> uchar counter) list" where
  "align_blocks [] counts = counts"
| "align_blocks ((ub, tb) # pairs) counts =
     align_blocks pairs (align_block ub (strip_nl_tags_keep_newline tb) 0 counts)"

text \<open>The two loops that pick the most frequent partner of every key.\<close>

fun choose_most_common :: "('a \<times> 'b counter) list \<Rightarrow> error + ('a \<times> 'b) list" where
  "choose_most_common [] = Inr []"
| "choose_most_common ((k, ctr) # rest) =
     (case most_common1 ctr of Inl e \<Rightarrow> Inl e
      | Inr best \<Rightarrow>
          (case choose_most_common rest of Inl e \<Rightarrow> Inl e
           | Inr chosen \<Rightarrow> Inr ((k, fst best) # chosen)))"

text \<open>The loops that build \<^verbatim>\<open>rev_counts\<close> from \<^verbatim>\<open>counts\<close>.\<close>

definition reverse_counts :: "(nat \<times> uchar counter) list \<Rightarrow> (uchar \<times> nat counter) list" where
  "reverse_counts counts =
     fold (\<lambda>(u, ctr) rev_counts. fold (\<lambda>(ch, n) rc. counts_add ch u n rc) ctr rev_counts)
       counts []"

text \<open>\<^verbatim>\<open>learn_mapping_from_pair\<close>, given the bytes of the MSG file and the decoded text
  of the TXT file. The two dictionaries it returns are association lists in insertion
  order.\<close>

definition learn_mapping_from_pair ::
  "byte list \<Rightarrow> ustring \<Rightarrow> error + ((nat \<times> uchar) list \<times> (uchar \<times> nat) list)" where
  "learn_mapping_from_pair data txt_text =
     (case read_all_blocks_units data of Inl err \<Rightarrow> Inl err
      | Inr msg_blocks_units \<Rightarrow>
          (let txt_blocks = split_txt_into_blocks txt_text
           in if length msg_blocks_units \<noteq> length txt_blocks then Inl BlockCountsDiffer
              else (let counts = align_blocks (zip msg_blocks_units txt_blocks) []
                    in case choose_most_common counts of Inl err \<Rightarrow> Inl err
                       | Inr unit_to_char \<Rightarrow>
                           (case choose_most_common (reverse_counts counts) of
                              Inl err \<Rightarrow> Inl err
                            | Inr char_to_unit \<Rightarrow> Inr (unit_to_char, char_to_unit)))))"

section \<open>duomsgJP (Experimental).pyw: automatic training\<close>

text \<open>
  The files that \<^verbatim>\<open>auto_train_if_possible\<close> looks at are the siblings of the dropped
  path with the same stem: the MSG file, the TXT file and the mapping file
  \<^verbatim>\<open>stem.map.json\<close>. Each is absent or holds its contents (the TXT file as decoded
  text, the mapping file as the two tables and the count that \<^verbatim>\<open>save_mapping\<close>
  writes into it).
\<close>

record map_artifact =
  art_unit_to_char :: "(nat \<times> uchar) list"
  art_char_to_unit :: "(uchar \<times> nat) list"
  art_count :: nat

record files =
  msg_file :: "byte list option"
  txt_file :: "ustring option"
  map_file :: "map_artifact option"

datatype dropped = DroppedMsg | DroppedTxt | DroppedOther

datatype log_line = LogTrained nat | LogTrainingFailed error

definition AUTO_TRAIN_JP :: bool where
  "AUTO_TRAIN_JP = True"

definition save_mapping :: "files \<Rightarrow> (nat \<times> uchar) list \<Rightarrow> (uchar \<times> nat) list \<Rightarrow> files" where
  "save_mapping fs unit_to_char char_to_unit =
     fs\<lparr>map_file := Some \<lparr>art_unit_to_char = unit_to_char, art_char_to_unit = char_to_unit,
                           art_count = length unit_to_char\<rparr>\<rparr>"

text \<open>The result is the new state of the files, the lines logged, and whether a map
  path is returned (\<^verbatim>\<open>None\<close> otherwise).\<close>

definition auto_train_if_possible :: "dropped \<Rightarrow> files \<Rightarrow> files \<times> log_line list \<times> bool" where
  "auto_train_if_possible path fs =
     (if \<not> AUTO_TRAIN_JP then (fs, [], False)
      else if path = DroppedOther then (fs, [], False)
      else (case (msg_file fs, txt_file fs) of
              (Some data, Some txt_text) \<Rightarrow>
                (if map_file fs \<noteq> None then (fs, [], True)
                 else (case learn_mapping_from_pair data txt_text of
                         Inr (unit_to_char, char_to_unit) \<Rightarrow>
                           (save_mapping fs unit_to_char char_to_unit,
                            [LogTrained (length char_to_unit)], True)
                       | Inl e \<Rightarrow> (fs, [LogTrainingFailed e], False)))
            | _ \<Rightarrow> (fs, [], False)))"

section \<open>Auxiliary notions for the statements\<close>

text \<open>The test both encoders make at index \<open>i\<close>: the tag stands there and a line
  break follows it immediately.\<close>

definition at_tagged_newline :: "ustring \<Rightarrow> ustring \<Rightarrow> nat \<Rightarrow> bool" where
  "at_tagged_newline text tag i =
     (startswith text tag i \<and> i + length tag < length text \<and> text ! (i + length tag) = LF)"

text \<open>Code units put in front of the result of encoding the rest of a block.\<close>

definition extend :: "nat list \<Rightarrow> error + nat list \<Rightarrow> error + nat list" where
  "extend units r = (case r of Inl e \<Rightarrow> Inl e | Inr us \<Rightarrow> Inr (units @ us))"

text \<open>The keys of a dictionary of counters, and the keys of its counters.\<close>

definition unit_keys :: "('a \<times> 'b counter) list \<Rightarrow> 'a set" where
  "unit_keys counts = fst ` set counts"

definition char_keys :: "('a \<times> 'b counter) list \<Rightarrow> 'b set" where
  "char_keys counts = (\<Union>(a, ctr) \<in> set counts. fst ` set ctr)"

text \<open>
  Texts of the Latin rule. \<open>ascii_only\<close>: every character is below U+0080.
  \<open>every_line_break_tagged\<close>: each line break has the tag of the 0x8016 newline or the tag
  of the 0x000A newline immediately before it (\<open>seen\<close> holds the characters read so
  far). \<open>tagged_within\<close> says the same by positions.
\<close>

definition endswith :: "ustring \<Rightarrow> ustring \<Rightarrow> bool" where
  "endswith s tag = (length tag \<le> length s \<and> drop (length s - length tag) s = tag)"

fun tagged_from :: "ustring \<Rightarrow> ustring \<Rightarrow> bool" where
  "tagged_from seen [] = True"
| "tagged_from seen (c # cs) =
     ((c = LF \<longrightarrow> endswith seen NL_TAG_8016 \<or> endswith seen NL_TAG_000A)
      \<and> tagged_from (seen @ [c]) cs)"

definition every_line_break_tagged :: "ustring \<Rightarrow> bool" where
  "every_line_break_tagged s = tagged_from [] s"

definition ascii_only :: "ustring \<Rightarrow> bool" where
  "ascii_only s = (\<forall>c \<in> set s. c < 0x80)"

definition tagged_within :: "ustring \<Rightarrow> bool" where
  "tagged_within s = (\<forall>k<length s. s ! k = LF \<longrightarrow>
       suffix NL_TAG_8016 (take k s) \<or> suffix NL_TAG_000A (take k s))"

text \<open>
  Blocks for which joining and splitting is the identity. \<open>lf_only\<close>: the line
  break LF is the only line boundary character of the text. \<open>clean_block\<close>: the block
  is not empty, does not end with a line break, has no other line boundary character,
  and none of its lines, with surrounding whitespace stripped, is the separator.
  \<open>lf_split_from\<close> cuts a text at its line breaks; \<open>block_text\<close> is a block followed by
  the separator line.
\<close>

definition lf_only :: "ustring \<Rightarrow> bool" where
  "lf_only s = (\<forall>c \<in> set s. is_linebreak c \<longrightarrow> c = LF)"

definition clean_block :: "ustring \<Rightarrow> bool" where
  "clean_block b = (b \<noteq> [] \<and> last b \<noteq> LF \<and> lf_only b
                    \<and> (\<forall>l \<in> set (splitlines b). strip l \<noteq> BLOCK_SEPARATOR))"

fun lf_split_from :: "ustring \<Rightarrow> ustring \<Rightarrow> ustring list" where
  "lf_split_from cur [] = [cur]"
| "lf_split_from cur (c # cs) =
     (if c = LF then cur # lf_split_from [] cs else lf_split_from (cur @ [c]) cs)"

definition block_text :: "ustring \<Rightarrow> ustring" where
  "block_text b = b @ ([LF] @ BLOCK_SEPARATOR @ [LF])"

text \<open>
  The observations of the training walk: the pairs of a code unit and the character it
  was aligned with, in the order in which the walk counts them.  The remaining notions
  describe the counters as tallies of a list of observations.
\<close>

fun observe_block :: "nat list \<Rightarrow> ustring \<Rightarrow> nat \<Rightarrow> (nat \<times> uchar) list" where
  "observe_block [] ref j = []"
| "observe_block (u # ub) ref j =
     (if u = NEWLINE_000A \<or> u = NEWLINE_8016
      then observe_block ub ref (if j < length ref \<and> ref ! j = LF then j + 1 else j)
      else (let j' = skip_newlines ref j
            in if j' \<ge> length ref then []
               else (u, ref ! j') # observe_block ub ref (j' + 1)))"

fun observe_blocks :: "(nat list \<times> ustring) list \<Rightarrow> (nat \<times> uchar) list" where
  "observe_blocks [] = []"
| "observe_blocks ((ub, tb) # pairs) =
     observe_block ub (strip_nl_tags_keep_newline tb) 0 @ observe_blocks pairs"

definition training_observations :: "byte list \<Rightarrow> ustring \<Rightarrow> (nat \<times> uchar) list" where
  "training_observations data txt_text =
     (case read_all_blocks_units data of Inl e \<Rightarrow> []
      | Inr ubs \<Rightarrow> observe_blocks (zip ubs (split_txt_into_blocks txt_text)))"

definition occurs_before :: "'a list \<Rightarrow> 'a \<Rightarrow> 'a \<Rightarrow> bool" where
  "occurs_before xs x y = (x \<in> set (takeWhile (\<lambda>z. z \<noteq> y) xs))"

definition tally_into :: "('a \<times> 'b \<times> nat) list \<Rightarrow> ('a \<times> 'b counter) list \<Rightarrow> ('a \<times> 'b counter) list" where
  "tally_into ws counts = fold (\<lambda>(a, b, n). counts_add a b n) ws counts"

definition counter_into :: "('b \<times> nat) list \<Rightarrow> 'b counter \<Rightarrow> 'b counter" where
  "counter_into ps ctr = fold (\<lambda>(b, n). counter_add b n) ps ctr"

definition ctr_of :: "('a \<times> 'b counter) list \<Rightarrow> 'a \<Rightarrow> 'b counter" where
  "ctr_of counts a = (case map_of counts a of None \<Rightarrow> [] | Some ctr \<Rightarrow> ctr)"

definition cnt :: "'b counter \<Rightarrow> 'b \<Rightarrow> nat" where
  "cnt ctr b = (case map_of ctr b of None \<Rightarrow> 0 | Some m \<Rightarrow> m)"

definition weight :: "('b \<times> nat) list \<Rightarrow> 'b \<Rightarrow> nat" where
  "weight ps b = sum_list (map snd (filter (\<lambda>p. fst p = b) ps))"

definition rev_obs :: "('a \<times> 'b counter) list \<Rightarrow> ('b \<times> 'a \<times> nat) list" where
  "rev_obs counts = concat (map (\<lambda>(u, ctr). map (\<lambda>(ch, n). (ch, u, n)) ctr) counts)"

definition holders :: "'b \<Rightarrow> ('a \<times> 'b counter) list \<Rightarrow> ('a \<times> nat) list" where
  "holders ch counts =
     concat (map (\<lambda>(u, ctr). map (\<lambda>(c, n). (u, n)) (filter (\<lambda>p. fst p = ch) ctr)) counts)"

definition firsts_into :: "'a list \<Rightarrow> 'a list \<Rightarrow> 'a list" where
  "firsts_into xs acc = fold (\<lambda>x acc. if x \<in> set acc then acc else acc @ [x]) xs acc"

section \<open>Evaluation helpers\<close>

lemma ustr_simps:
  "ustr [] = []"
  "ustr (c # s) = of_char c # ustr s"
  by (simp_all add: ustr_def)

lemma read_entries_step:
  "0 < k \<Longrightarrow> read_entries data k off entries =
     (if off + 4 > length data then Inl TruncatedBlockTable
      else read_entries data (k - 1) (off + 4)
             (entries @ [\<lparr>offset = u16_at data off, length_units = u16_at data (off + 2)\<rparr>]))"
  by (cases k) simp_all

lemma replicate_step: "0 < k \<Longrightarrow> replicate k x = x # replicate (k - 1) x"
  by (cases k) simp_all

lemmas settings_defs =
  BLOCK_SEPARATOR_def TAG_NEWLINES_def NL_TAG_8016_def NL_TAG_000A_def
  NEWLINE_000A_def NEWLINE_8016_def DEFAULT_ENCODE_NEWLINE_def LF_def

lemmas en_eval =
  settings_defs ustr_simps decode_unit_def chr_def startswith_def is_lower_az_def
  encode_text_to_units_def

lemmas container_eval =
  read_msg_entries_and_textstart_def u16_at_def read_entries_step slice_def unpack_units_def

lemmas jp_eval =
  JP_NL_TAG_8016_def JP_NL_TAG_000A_def ENCODE_UNKNOWN_POLICY_def is_ascii_printable_def
  decode_unit_english_def decode_unit_with_map_def decode_units_with_map_def
  placeholder_def format_04X_def hex_digit_def hex_upper.simps replicate_step
  encode_block_with_map_def encode_blocks_with_policy_def encode_blocks_with_map_def

lemmas pack_eval = assemble_msg_def pack_HH_def pack_H_def

lemmas trainer_eval =
  learn_mapping_from_pair_def read_all_blocks_units_def split_txt_into_blocks_def
  splitlines_def strip_def is_space_def is_linebreak_def CR_def rstrip_newlines_def
  make_txt_from_blocks_def strip_nl_tags_keep_newline_def skip_newlines.simps
  reverse_counts_def auto_train_if_possible_def save_mapping_def AUTO_TRAIN_JP_def

section \<open>The concrete scenario of the Latin rule\<close>

text \<open>
  Claim C2, as amended. The code units \<^verbatim>\<open>[0x48, 0x65, 0xEC, 0xEC, 0xEF, 0x8016]\<close>
  decode (tagging enabled) to \<^verbatim>\<open>Hello\<close> followed by the tag of the 0x8016 newline and
  a line break. Encoding that text with the default newline code 0x8016 gives
  \<^verbatim>\<open>[0x48, 0xE5, 0xEC, 0xEC, 0xEF, 0x8016]\<close>: the lowercase \<^verbatim>\<open>e\<close> is stored as
  0x65 + 0x80, so the second unit differs from the raw 0x65 of the input; the units that
  the encoder produced decode to the same text again.
\<close>

theorem hello_scenario:
  "decode_units_to_text [0x48, 0x65, 0xEC, 0xEC, 0xEF, 0x8016] True = Inr (ustr ''Hello/n'' @ [LF])
   \<and> encode_text_to_units (ustr ''Hello/n'' @ [LF]) 0x8016 = [0x48, 0xE5, 0xEC, 0xEC, 0xEF, 0x8016]
   \<and> decode_units_to_text [0x48, 0xE5, 0xEC, 0xEC, 0xEF, 0x8016] True = Inr (ustr ''Hello/n'' @ [LF])"
  by (simp add: en_eval encode_loop.simps)

text \<open>
  The claim as stated fails: re-encoding the decoded text does not reproduce the six
  original code units.
\<close>

theorem hello_scenario_counterexample:
  "decode_units_to_text [0x48, 0x65, 0xEC, 0xEC, 0xEF, 0x8016] True = Inr (ustr ''Hello/n'' @ [LF])
   \<and> encode_text_to_units (ustr ''Hello/n'' @ [LF]) 0x8016 \<noteq> [0x48, 0x65, 0xEC, 0xEC, 0xEF, 0x8016]"
  by (simp add: en_eval encode_loop.simps)

section \<open>Header integrity of the encoders\<close>

lemma pack_H_length: "pack_H v = Inr b \<Longrightarrow> length b = 2"
  by (auto simp: pack_H_def split: if_splits)

lemma pack_units_length: "pack_units vs = Inr bs \<Longrightarrow> length bs = 2 * length vs"
  by (induction vs arbitrary: bs) (auto split: sum.splits dest: pack_H_length)

lemma pack_entries_length: "pack_entries es = Inr bs \<Longrightarrow> length bs = 4 * length es"
  by (induction es arbitrary: bs) (auto simp: pack_HH_def split: sum.splits dest!: pack_H_length)

lemma pack_HH_fields:
  assumes "pack_HH a b = Inr h"
  shows "length h = 4 \<and> u16_at (h @ rest) 0 = a \<and> u16_at (h @ rest) 2 = b"
  using assms
  by (auto simp: pack_HH_def pack_H_def u16_at_def unat_of_nat nth_append split: if_splits sum.splits)

lemma assemble_msg_header:
  assumes "assemble_msg all_units entries = Inr bytes"
  shows "u16_at bytes 0 = 4 + 4 * length entries + 2 * length all_units
       \<and> u16_at bytes 2 = length entries
       \<and> length bytes = 4 + 4 * length entries + 2 * length all_units"
  using assms
  by (auto simp: assemble_msg_def Let_def split: sum.splits
      dest!: pack_units_length pack_entries_length dest: pack_HH_fields)

lemma encode_blocks_loop_shape:
  "encode_blocks_loop blocks d all_units entries cur_off = (us, es) \<Longrightarrow>
   length es = length entries + length blocks
   \<and> length us = length all_units + sum_list (map (\<lambda>b. length (encode_text_to_units b d)) blocks)"
  by (induction blocks arbitrary: all_units entries cur_off) (auto simp: Let_def)

lemma encode_map_blocks_loop_shape:
  "encode_map_blocks_loop pol m d blocks all_units entries = Inr (us, es) \<Longrightarrow>
   length es = length entries + length blocks
   \<and> (\<forall>b \<in> set blocks. \<exists>u. encode_block_with_map pol m d b = Inr u)
   \<and> length us = length all_units
        + sum_list (map (\<lambda>b. length (projr (encode_block_with_map pol m d b))) blocks)"
proof (induction blocks arbitrary: all_units entries)
  case Nil
  then show ?case by simp
next
  case (Cons b blocks)
  then obtain u where u: "encode_block_with_map pol m d b = Inr u"
    by (auto split: sum.splits)
  with Cons.prems have "encode_map_blocks_loop pol m d blocks (all_units @ u)
      (entries @ [\<lparr>offset = length all_units, length_units = length u\<rparr>]) = Inr (us, es)"
    by simp
  from Cons.IH [OF this] u show ?case by simp
qed

text \<open>
  Claim C5. Whenever an encoder returns container bytes (it raises instead when a value
  does not fit the 16-bit fields), the first header field, read back as a big-endian
  16-bit integer, is \<open>4 + 4 * blockCount + 2 * (sum of the block lengths in code units)\<close>,
  and that is the length of the returned bytes; the second field is the block count.
  The first part is about \<^verbatim>\<open>encode_blocks_to_msg\<close>, the second about
  \<^verbatim>\<open>encode_blocks_with_map\<close>, where the length of a block is the number of code
  units its text encodes to.
\<close>

theorem header_integrity:
  "(encode_blocks_to_msg blocks d = Inr bytes \<longrightarrow>
      u16_at bytes 0
        = 4 + 4 * length blocks + 2 * sum_list (map (\<lambda>b. length (encode_text_to_units b d)) blocks)
      \<and> u16_at bytes 0 = length bytes
      \<and> u16_at bytes 2 = length blocks)
   \<and> (encode_blocks_with_map blocks m d = Inr bytes' \<longrightarrow>
      u16_at bytes' 0
        = 4 + 4 * length blocks
          + 2 * sum_list (map (\<lambda>b. length (projr (encode_block_with_map ENCODE_UNKNOWN_POLICY m d b))) blocks)
      \<and> u16_at bytes' 0 = length bytes'
      \<and> u16_at bytes' 2 = length blocks)"
proof (intro conjI impI)
  assume a: "encode_blocks_to_msg blocks d = Inr bytes"
  then obtain us es where l: "encode_blocks_loop blocks d [] [] 0 = (us, es)"
    and m: "assemble_msg us es = Inr bytes"
    by (auto simp: encode_blocks_to_msg_def split: prod.splits)
  from encode_blocks_loop_shape [OF l] assemble_msg_header [OF m]
  show "u16_at bytes 0
        = 4 + 4 * length blocks + 2 * sum_list (map (\<lambda>b. length (encode_text_to_units b d)) blocks)"
    and "u16_at bytes 0 = length bytes" and "u16_at bytes 2 = length blocks"
    by simp_all
next
  assume a: "encode_blocks_with_map blocks m d = Inr bytes'"
  then obtain us es where
    l: "encode_map_blocks_loop ENCODE_UNKNOWN_POLICY m d blocks [] [] = Inr (us, es)"
    and m: "assemble_msg us es = Inr bytes'"
    by (auto simp: encode_blocks_with_map_def encode_blocks_with_policy_def split: sum.splits)
  from encode_map_blocks_loop_shape [OF l] assemble_msg_header [OF m]
  show "u16_at bytes' 0
        = 4 + 4 * length blocks
          + 2 * sum_list (map (\<lambda>b. length (projr (encode_block_with_map ENCODE_UNKNOWN_POLICY m d b))) blocks)"
    and "u16_at bytes' 0 = length bytes'" and "u16_at bytes' 2 = length blocks"
    by simp_all
qed

lemma en_hi: "encode_blocks_to_msg [ustr ''hi/n'' @ [LF]] 0x8016
    = Inr [0, 14, 0, 1, 0, 0, 0, 3, 0, 232, 0, 233, 128, 22]"
  by (simp add: en_eval encode_loop.simps encode_blocks_to_msg_def pack_eval)

lemma jp_hi: "encode_blocks_with_map [ustr ''hi<NL_8016>'' @ [LF]] Map.empty 0x8016
    = Inr [0, 14, 0, 1, 0, 0, 0, 3, 0, 232, 0, 233, 128, 22]"
  by (simp add: en_eval jp_eval encode_map_loop.simps pack_eval)

theorem header_integrity_witness:
  "encode_blocks_to_msg [ustr ''hi/n'' @ [LF]] 0x8016
     = Inr [0, 14, 0, 1, 0, 0, 0, 3, 0, 232, 0, 233, 128, 22]
   \<and> encode_blocks_with_map [ustr ''hi<NL_8016>'' @ [LF]] Map.empty 0x8016
     = Inr [0, 14, 0, 1, 0, 0, 0, 3, 0, 232, 0, 233, 128, 22]
   \<and> u16_at [0, 14, 0, 1, 0, 0, 0, 3, 0, 232, 0, 233, 128, 22] 0 = 14
   \<and> length [0, 14, 0, 1, 0, 0, 0, 3, 0, 232, 0, 233, 128, 22 :: byte] = 14
   \<and> 4 + 4 * length [ustr ''hi/n'' @ [LF]]
        + 2 * sum_list (map (\<lambda>b. length (encode_text_to_units b 0x8016)) [ustr ''hi/n'' @ [LF]]) = 14"
  using header_integrity [of "[ustr ''hi/n'' @ [LF]]" "0x8016"
      "[0, 14, 0, 1, 0, 0, 0, 3, 0, 232, 0, 233, 128, 22]" Map.empty
      "[0, 14, 0, 1, 0, 0, 0, 3, 0, 232, 0, 233, 128, 22]"] en_hi jp_hi
  by (simp add: u16_at_def)

section \<open>Block bounds\<close>

text \<open>
  Claim C8, evaluated at a container whose only table entry declares five code units
  while the text area holds one (the bytes \<^verbatim>\<open>00 0A 00 01 00 00 00 05 00 48\<close>).
  \<^verbatim>\<open>decode_msg_to_blocks\<close> of duomsgEN.pyw rejects it; the three readers of the
  experimental tool take the slice without a check and return the truncated block.
\<close>

theorem bounds_check_only_in_en_tool:
  "decode_msg_to_blocks [0x00, 0x0A, 0x00, 0x01, 0x00, 0x00, 0x00, 0x05, 0x00, 0x48] True
     = Inl InvalidBlockBounds
   \<and> decode_msg_to_blocks_english [0x00, 0x0A, 0x00, 0x01, 0x00, 0x00, 0x00, 0x05, 0x00, 0x48] True
     = Inr [ustr ''H'']
   \<and> read_all_blocks_units [0x00, 0x0A, 0x00, 0x01, 0x00, 0x00, 0x00, 0x05, 0x00, 0x48]
     = Inr [[0x48]]
   \<and> decode_msg_to_blocks_with_map [0x00, 0x0A, 0x00, 0x01, 0x00, 0x00, 0x00, 0x05, 0x00, 0x48]
       Map.empty True
     = Inr [ustr ''<U+0048>'']"
  by (simp add: decode_msg_to_blocks_def decode_msg_to_blocks_english_def
      read_all_blocks_units_def decode_msg_to_blocks_with_map_def container_eval en_eval jp_eval)

section \<open>Decoding through a mapping: units that the mapping does not know\<close>

lemma decode_entries_with_map_units:
  "decode_entries_with_map data ts m tag es =
     (case read_entries_units data ts es of Inl err \<Rightarrow> Inl err
      | Inr uss \<Rightarrow> Inr (map (decode_units_with_map m tag) uss))"
  by (induction es) (auto simp: Let_def split: sum.splits)

lemma decode_msg_with_map_units:
  "decode_msg_to_blocks_with_map data m tag =
     (case read_all_blocks_units data of Inl err \<Rightarrow> Inl err
      | Inr uss \<Rightarrow> Inr (map (decode_units_with_map m tag) uss))"
  by (auto simp: decode_msg_to_blocks_with_map_def read_all_blocks_units_def
      decode_entries_with_map_units split: sum.splits)

lemma format_04X_length: "4 \<le> length (format_04X u)"
  by (simp add: format_04X_def)

text \<open>
  Claim C3, as amended. Every block that \<^verbatim>\<open>decode_msg_to_blocks_with_map\<close> returns
  is the concatenation, in order, of what each code unit of the block renders to. A unit
  that is neither a newline code nor a key of the table renders to the character
  \<open>u - 0x80\<close> when \<open>u \<ge> 0x80\<close> and \<open>u - 0x80\<close> is printable ASCII
  (0x20..0x7E or 0x09), and to the placeholder \<^verbatim>\<open><U+XXXX>\<close> in every other case,
  which includes every unit below 0x80. Either rendering is non-empty, so the unit is
  not dropped.
\<close>

theorem mapped_decode_fallback:
  "decode_msg_to_blocks_with_map data unit_to_char tag =
     (case read_all_blocks_units data of Inl err \<Rightarrow> Inl err
      | Inr uss \<Rightarrow> Inr (map (decode_units_with_map unit_to_char tag) uss))
   \<and> (u \<noteq> NEWLINE_000A \<and> u \<noteq> NEWLINE_8016 \<and> unit_to_char u = None \<longrightarrow>
        decode_units_with_map unit_to_char tag (before @ u # after) =
          decode_units_with_map unit_to_char tag before
          @ (if u \<ge> 0x80 \<and> is_ascii_printable (u - 0x80) then [u - 0x80]
             else ustr ''<U+'' @ format_04X u @ ustr ''>'')
          @ decode_units_with_map unit_to_char tag after
        \<and> (if u \<ge> 0x80 \<and> is_ascii_printable (u - 0x80) then [u - 0x80]
             else ustr ''<U+'' @ format_04X u @ ustr ''>'') \<noteq> [])"
  by (simp add: decode_msg_with_map_units decode_units_with_map_def decode_unit_with_map_def
      placeholder_def ustr_simps)

theorem mapped_decode_fallback_witness:
  "(0xC8::nat) \<noteq> NEWLINE_000A \<and> (0xC8::nat) \<noteq> NEWLINE_8016
   \<and> decode_units_with_map Map.empty True ([0x10D] @ 0xC8 # [0x8016])
       = ustr ''<U+010D>H<NL_8016>'' @ [LF]"
  using mapped_decode_fallback [of "[]" Map.empty True "0xC8" "[0x10D]" "[0x8016]"]
  by (simp add: en_eval jp_eval)

text \<open>
  The claim as stated fails for a unit below 0x80: in a well-formed container whose one
  block is the single unit 0x0048, the mapped decoder (with an empty table) renders the
  placeholder, where the Latin rule of \<^verbatim>\<open>decode_msg_to_blocks_english\<close> gives the
  printable character \<^verbatim>\<open>H\<close>.
\<close>

theorem mapped_decode_fallback_counterexample:
  "decode_msg_to_blocks_with_map [0x00, 0x0A, 0x00, 0x01, 0x00, 0x00, 0x00, 0x01, 0x00, 0x48]
      Map.empty True = Inr [ustr ''<U+0048>'']
   \<and> decode_msg_to_blocks_english [0x00, 0x0A, 0x00, 0x01, 0x00, 0x00, 0x00, 0x01, 0x00, 0x48]
      True = Inr [ustr ''H'']"
  by (simp add: decode_msg_to_blocks_with_map_def decode_msg_to_blocks_english_def
      container_eval en_eval jp_eval)

section \<open>Encoding through a mapping: characters that the mapping does not know\<close>

lemma at_tagged_newline_drop:
  "i \<le> length text \<Longrightarrow> at_tagged_newline (drop i text) tag 0 = at_tagged_newline text tag i"
  by (auto simp: at_tagged_newline_def startswith_def add.commute)

lemma encode_map_loop_unfold:
  "encode_map_loop pol m d block i units =
     (if i < length block then
        (if at_tagged_newline block JP_NL_TAG_8016 i
         then encode_map_loop pol m d block (i + length JP_NL_TAG_8016 + 1) (units @ [NEWLINE_8016])
         else if at_tagged_newline block JP_NL_TAG_000A i
         then encode_map_loop pol m d block (i + length JP_NL_TAG_000A + 1) (units @ [NEWLINE_000A])
         else if block ! i = LF
         then encode_map_loop pol m d block (i + 1) (units @ [d])
         else (case m (block ! i) of
                 Some u \<Rightarrow> encode_map_loop pol m d block (i + 1) (units @ [u])
               | None \<Rightarrow>
                   if is_lower_az (block ! i)
                   then encode_map_loop pol m d block (i + 1) (units @ [block ! i + 0x80])
                   else (case pol of
                           PolicyError \<Rightarrow> Inl (UnknownGlyph (block ! i))
                         | PolicyPlaceholder \<Rightarrow> encode_map_loop pol m d block (i + 1) (units @ [0x3F])
                         | PolicySkip \<Rightarrow> encode_map_loop pol m d block (i + 1) units
                         | PolicyOther \<Rightarrow> encode_map_loop pol m d block (i + 1) (units @ [block ! i]))))
      else Inr units)"
  by (subst encode_map_loop.simps) (simp add: at_tagged_newline_def TAG_NEWLINES_def)

lemma extend_simps [simp]:
  "extend units (Inl e) = Inl e"
  "extend units (Inr us) = Inr (units @ us)"
  "extend [] r = r"
  "extend a (extend b r) = extend (a @ b) r"
  by (auto simp: extend_def split: sum.splits)

lemma encode_map_loop_suffix:
  "encode_map_loop pol m d block i units =
     extend units (encode_map_loop pol m d (drop i block) 0 [])"
proof (induction "length block - i" arbitrary: block i units pol rule: less_induct)
  case less
  show ?case
  proof (cases "i < length block")
    case False
    then show ?thesis
      by (simp add: encode_map_loop_unfold [of pol m d block i]
          encode_map_loop_unfold [of pol m d "[]" 0])
  next
    case True
    have L: "\<And>k us p. encode_map_loop p m d block (Suc (i + k)) us
        = extend us (encode_map_loop p m d (drop (Suc (i + k)) block) 0 [])"
      using True by (intro less) simp
    have R: "\<And>k us p. encode_map_loop p m d (drop i block) (Suc k) us
        = extend us (encode_map_loop p m d (drop (Suc (i + k)) block) 0 [])"
    proof -
      fix k :: nat and us p
      have "length (drop i block) - Suc k < length block - i" using True by simp
      from less [OF this] show "encode_map_loop p m d (drop i block) (Suc k) us
        = extend us (encode_map_loop p m d (drop (Suc (i + k)) block) 0 [])"
        by (simp add: add.commute)
    qed
    note L0 = L [of _ 0, simplified] and R0 = R [of _ 0, simplified]
    have hd: "drop i block ! 0 = block ! i" using True by simp
    have tg: "at_tagged_newline (drop i block) tag 0 = at_tagged_newline block tag i" for tag
      using True by (simp add: at_tagged_newline_drop)
    show ?thesis
      using True
      by (subst encode_map_loop_unfold [of pol m d block i],
          subst encode_map_loop_unfold [of pol m d "drop i block" 0])
         (simp add: tg hd L R L0 R0 split: option.splits policy.splits)
  qed
qed

lemma encode_map_loop_suffix_Suc:
  "encode_map_loop pol m d block (Suc k) units =
     extend units (encode_map_loop pol m d (drop (Suc k) block) 0 [])"
  by (rule encode_map_loop_suffix)

lemma encode_block_with_map_Nil: "encode_block_with_map pol m d [] = Inr []"
  by (simp add: encode_block_with_map_def encode_map_loop_unfold)

lemma encode_block_with_map_tagged:
  assumes "at_tagged_newline block tag 0" "tag = JP_NL_TAG_8016 \<or> tag = JP_NL_TAG_000A"
  shows "encode_block_with_map pol m d block =
     extend [if tag = JP_NL_TAG_8016 then NEWLINE_8016 else NEWLINE_000A]
       (encode_block_with_map pol m d (drop (length tag + 1) block))"
proof -
  have ne: "0 < length block" using assms(1) by (auto simp: at_tagged_newline_def)
  have excl: "at_tagged_newline block JP_NL_TAG_8016 0 \<Longrightarrow> \<not> at_tagged_newline block JP_NL_TAG_000A 0"
    by (auto simp: at_tagged_newline_def startswith_def jp_eval ustr_simps LF_def
        dest!: arg_cong [where f = "\<lambda>xs. xs ! 8"])
  show ?thesis
    using assms ne excl
    unfolding encode_block_with_map_def
    by (subst encode_map_loop_unfold)
       (auto simp: encode_map_loop_suffix_Suc)
qed

lemma encode_block_with_map_Cons:
  assumes "\<not> at_tagged_newline (c # rest) JP_NL_TAG_8016 0"
    and "\<not> at_tagged_newline (c # rest) JP_NL_TAG_000A 0"
  shows "encode_block_with_map pol m d (c # rest) =
     (if c = LF then extend [d] (encode_block_with_map pol m d rest)
      else case m c of
        Some u \<Rightarrow> extend [u] (encode_block_with_map pol m d rest)
      | None \<Rightarrow>
         if is_lower_az c then extend [c + 0x80] (encode_block_with_map pol m d rest)
         else (case pol of
                 PolicyError \<Rightarrow> Inl (UnknownGlyph c)
               | PolicyPlaceholder \<Rightarrow> extend [0x3F] (encode_block_with_map pol m d rest)
               | PolicySkip \<Rightarrow> encode_block_with_map pol m d rest
               | PolicyOther \<Rightarrow> extend [c] (encode_block_with_map pol m d rest)))"
  using assms
  unfolding encode_block_with_map_def
  by (subst encode_map_loop_unfold)
     (simp add: encode_map_loop_suffix_Suc split: option.splits policy.splits)

lemma tagged_block_split:
  assumes "at_tagged_newline block tag 0"
  shows "block = tag @ LF # drop (length tag + 1) block"
proof -
  from assms have t: "take (length tag) block = tag" and l: "length tag < length block"
    and n: "block ! length tag = LF"
    by (auto simp: at_tagged_newline_def startswith_def)
  have "block = take (length tag) block @ drop (length tag) block" by simp
  also have "drop (length tag) block = block ! length tag # drop (Suc (length tag)) block"
    using l by (simp add: Cons_nth_drop_Suc)
  finally show ?thesis using t n by simp
qed

lemma unknown_glyph_fails_block:
  assumes "c \<in> set block" "m c = None" "\<not> is_lower_az c" "c \<noteq> LF"
    and "c \<notin> set JP_NL_TAG_8016" "c \<notin> set JP_NL_TAG_000A"
  shows "\<exists>e. encode_block_with_map PolicyError m d block = Inl e"
  using assms(1)
proof (induction "length block" arbitrary: block rule: less_induct)
  case less
  then obtain x xs where b: "block = x # xs" by (cases block) auto
  consider (t1) "at_tagged_newline block JP_NL_TAG_8016 0"
    | (t2) "at_tagged_newline block JP_NL_TAG_000A 0"
    | (plain) "\<not> at_tagged_newline block JP_NL_TAG_8016 0" "\<not> at_tagged_newline block JP_NL_TAG_000A 0"
    by blast
  then show ?case
  proof cases
    case t1
    let ?r = "drop (length JP_NL_TAG_8016 + 1) block"
    from tagged_block_split [OF t1] less.prems assms have "c \<in> set ?r"
      by (metis Un_iff set_ConsD set_append)
    moreover have "length ?r < length block" using b by simp
    ultimately obtain e where "encode_block_with_map PolicyError m d ?r = Inl e"
      using less.hyps by blast
    then show ?thesis
      by (simp add: encode_block_with_map_tagged [OF t1])
  next
    case t2
    let ?r = "drop (length JP_NL_TAG_000A + 1) block"
    from tagged_block_split [OF t2] less.prems assms have "c \<in> set ?r"
      by (metis Un_iff set_ConsD set_append)
    moreover have "length ?r < length block" using b by simp
    ultimately obtain e where "encode_block_with_map PolicyError m d ?r = Inl e"
      using less.hyps by blast
    then show ?thesis
      by (simp add: encode_block_with_map_tagged [OF t2])
  next
    case plain
    show ?thesis
    proof (cases "x = c")
      case True
      with plain assms b show ?thesis
        by (simp add: encode_block_with_map_Cons)
    next
      case False
      with less.prems b have "c \<in> set xs" by simp
      moreover have "length xs < length block" using b by simp
      ultimately obtain e where "encode_block_with_map PolicyError m d xs = Inl e"
        using less.hyps by blast
      with plain b show ?thesis
        by (simp add: encode_block_with_map_Cons split: option.splits)
    qed
  qed
qed

lemma encode_map_blocks_loop_fails:
  "b \<in> set blocks \<Longrightarrow> encode_block_with_map pol m d b = Inl e \<Longrightarrow>
   \<exists>e'. encode_map_blocks_loop pol m d blocks all_units entries = Inl e'"
  by (induction blocks arbitrary: all_units entries) (auto split: sum.splits)

text \<open>
  Claim C4, as amended. Let the encoder of \<^verbatim>\<open>encode_blocks_with_map\<close> stand at a
  character \<open>c\<close> (the rest of the block being \<open>rest\<close>) that is not a line break, does
  not start a tag followed by a line break, and is absent from \<^verbatim>\<open>char_to_unit\<close>.
  If \<open>c\<close> is a lowercase letter it is stored as codepoint + 0x80. Every other such
  character falls under the unknown-glyph policy: \<^verbatim>\<open>error\<close> raises,
  \<^verbatim>\<open>placeholder\<close> stores 0x3F, \<^verbatim>\<open>skip\<close> stores nothing; the raw
  codepoint is stored only when the setting is none of the three. With the configured
  policy \<^verbatim>\<open>error\<close>, the whole operation fails as soon as some block contains an
  unmapped character that is not a lowercase letter, not a line break and not one of the
  characters of the two tags.
\<close>

theorem mapped_encode_fallback:
  "(char_to_unit c = None \<and> c \<noteq> LF
      \<and> \<not> at_tagged_newline (c # rest) JP_NL_TAG_8016 0
      \<and> \<not> at_tagged_newline (c # rest) JP_NL_TAG_000A 0 \<longrightarrow>
      encode_block_with_map pol char_to_unit d (c # rest) =
        (if is_lower_az c then extend [c + 0x80] (encode_block_with_map pol char_to_unit d rest)
         else (case pol of
                 PolicyError \<Rightarrow> Inl (UnknownGlyph c)
               | PolicyPlaceholder \<Rightarrow> extend [0x3F] (encode_block_with_map pol char_to_unit d rest)
               | PolicySkip \<Rightarrow> encode_block_with_map pol char_to_unit d rest
               | PolicyOther \<Rightarrow> extend [c] (encode_block_with_map pol char_to_unit d rest))))
   \<and> (b \<in> set blocks \<and> c \<in> set b \<and> char_to_unit c = None \<and> \<not> is_lower_az c \<and> c \<noteq> LF
      \<and> c \<notin> set JP_NL_TAG_8016 \<and> c \<notin> set JP_NL_TAG_000A \<longrightarrow>
      (\<exists>e. encode_blocks_with_map blocks char_to_unit d = Inl e))"
proof (intro conjI impI)
  assume "char_to_unit c = None \<and> c \<noteq> LF
      \<and> \<not> at_tagged_newline (c # rest) JP_NL_TAG_8016 0
      \<and> \<not> at_tagged_newline (c # rest) JP_NL_TAG_000A 0"
  then show "encode_block_with_map pol char_to_unit d (c # rest) =
        (if is_lower_az c then extend [c + 0x80] (encode_block_with_map pol char_to_unit d rest)
         else (case pol of
                 PolicyError \<Rightarrow> Inl (UnknownGlyph c)
               | PolicyPlaceholder \<Rightarrow> extend [0x3F] (encode_block_with_map pol char_to_unit d rest)
               | PolicySkip \<Rightarrow> encode_block_with_map pol char_to_unit d rest
               | PolicyOther \<Rightarrow> extend [c] (encode_block_with_map pol char_to_unit d rest)))"
    by (simp add: encode_block_with_map_Cons)
next
  assume a: "b \<in> set blocks \<and> c \<in> set b \<and> char_to_unit c = None \<and> \<not> is_lower_az c \<and> c \<noteq> LF
      \<and> c \<notin> set JP_NL_TAG_8016 \<and> c \<notin> set JP_NL_TAG_000A"
  then obtain e where "encode_block_with_map PolicyError char_to_unit d b = Inl e"
    using unknown_glyph_fails_block [of c b char_to_unit d] by blast
  with a obtain e' where
    "encode_map_blocks_loop PolicyError char_to_unit d blocks [] [] = Inl e'"
    using encode_map_blocks_loop_fails by blast
  then show "\<exists>e. encode_blocks_with_map blocks char_to_unit d = Inl e"
    by (simp add: encode_blocks_with_map_def encode_blocks_with_policy_def
        ENCODE_UNKNOWN_POLICY_def)
qed

theorem mapped_encode_fallback_witness:
  "encode_block_with_map PolicyPlaceholder Map.empty 0x8016 (ustr ''Hi'') = Inr [0x3F, 0xE9]
   \<and> encode_blocks_with_map [ustr ''Hi''] Map.empty 0x8016 = Inl (UnknownGlyph 0x48)"
proof -
  have ev: "encode_block_with_map PolicyPlaceholder Map.empty 0x8016 (ustr ''i'') = Inr [0xE9]"
    "encode_blocks_with_map [ustr ''Hi''] Map.empty 0x8016 = Inl (UnknownGlyph 0x48)"
    by (simp_all add: en_eval jp_eval encode_map_loop.simps)
  from mapped_encode_fallback [of Map.empty "0x48" "ustr ''i''" PolicyPlaceholder "0x8016"
      "ustr ''Hi''" "[ustr ''Hi'']"] ev
  show ?thesis
    by (simp add: at_tagged_newline_def en_eval jp_eval)
qed

text \<open>
  The claim as stated fails: with the configured policy, the unmapped uppercase letter
  \<^verbatim>\<open>H\<close> is not stored as its raw codepoint; the operation raises.
\<close>

theorem mapped_encode_fallback_counterexample:
  "encode_blocks_with_map [ustr ''H''] Map.empty DEFAULT_ENCODE_NEWLINE = Inl (UnknownGlyph 0x48)
   \<and> ENCODE_UNKNOWN_POLICY = PolicyError"
  by (simp add: en_eval jp_eval encode_map_loop.simps)

section \<open>Training stops on a block count mismatch\<close>

text \<open>
  Claim C6. When the blocks of the binary can be read and their number differs from the
  number of blocks of the reference text, \<^verbatim>\<open>learn_mapping_from_pair\<close> fails with
  the block-count error, whatever the blocks hold; \<^verbatim>\<open>auto_train_if_possible\<close>
  then leaves the files as they were (no mapping file appears), logs the failure and
  returns no path.  When the MSG file and the TXT file of a dropped MSG or TXT path exist
  and there is no mapping file yet, a training that succeeds with two tables writes
  exactly the mapping file that holds these tables and the number of learned units,
  leaves the MSG file and the TXT file as they were, logs the number of characters and
  returns the path; a training that fails with any error leaves the files as they were,
  so that no mapping file exists afterwards, logs the error and returns no path.  In
  every case, automatic training either leaves the files untouched or adds the one
  mapping file of a training that succeeded.
\<close>

theorem block_count_mismatch_aborts_training:
  "(read_all_blocks_units data = Inr msg_blocks_units
      \<and> length msg_blocks_units \<noteq> length (split_txt_into_blocks txt_text) \<longrightarrow>
      learn_mapping_from_pair data txt_text = Inl BlockCountsDiffer
      \<and> (msg_file fs = Some data \<and> txt_file fs = Some txt_text \<and> map_file fs = None \<longrightarrow>
           auto_train_if_possible path fs =
             (fs, if path = DroppedOther then [] else [LogTrainingFailed BlockCountsDiffer], False)))
   \<and> (path \<noteq> DroppedOther \<and> msg_file fs = Some data' \<and> txt_file fs = Some txt'
        \<and> map_file fs = None \<longrightarrow>
        (\<forall>u2c c2u. learn_mapping_from_pair data' txt' = Inr (u2c, c2u) \<longrightarrow>
           auto_train_if_possible path fs =
             (fs\<lparr>map_file := Some \<lparr>art_unit_to_char = u2c, art_char_to_unit = c2u,
                                    art_count = length u2c\<rparr>\<rparr>,
              [LogTrained (length c2u)], True)
           \<and> map_file (fst (auto_train_if_possible path fs)) =
               Some \<lparr>art_unit_to_char = u2c, art_char_to_unit = c2u, art_count = length u2c\<rparr>
           \<and> msg_file (fst (auto_train_if_possible path fs)) = Some data'
           \<and> txt_file (fst (auto_train_if_possible path fs)) = Some txt')
        \<and> (\<forall>e. learn_mapping_from_pair data' txt' = Inl e \<longrightarrow>
           auto_train_if_possible path fs = (fs, [LogTrainingFailed e], False)
           \<and> map_file (fst (auto_train_if_possible path fs)) = None))
   \<and> (fst (auto_train_if_possible path fs) = fs
       \<or> (\<exists>data' txt' u2c c2u. msg_file fs = Some data' \<and> txt_file fs = Some txt'
             \<and> map_file fs = None
             \<and> learn_mapping_from_pair data' txt' = Inr (u2c, c2u)
             \<and> fst (auto_train_if_possible path fs) =
                 fs\<lparr>map_file := Some \<lparr>art_unit_to_char = u2c, art_char_to_unit = c2u,
                                        art_count = length u2c\<rparr>\<rparr>))"
  by (auto simp: learn_mapping_from_pair_def auto_train_if_possible_def AUTO_TRAIN_JP_def
      save_mapping_def Let_def split: option.splits sum.splits)

theorem block_count_mismatch_aborts_training_witness:
  "read_all_blocks_units
      [0x00, 0x16, 0x00, 0x03, 0x00, 0x00, 0x00, 0x01, 0x00, 0x01, 0x00, 0x01, 0x00, 0x02, 0x00, 0x01,
       0x01, 0x01, 0x01, 0x02, 0x01, 0x03]
     = Inr [[0x101], [0x102], [0x103]]
   \<and> split_txt_into_blocks (ustr ''pqq'' @ [LF] @ ustr ''###'' @ [LF] @ ustr ''x'')
     = [ustr ''pqq'', ustr ''x'']
   \<and> learn_mapping_from_pair
      [0x00, 0x16, 0x00, 0x03, 0x00, 0x00, 0x00, 0x01, 0x00, 0x01, 0x00, 0x01, 0x00, 0x02, 0x00, 0x01,
       0x01, 0x01, 0x01, 0x02, 0x01, 0x03]
      (ustr ''pqq'' @ [LF] @ ustr ''###'' @ [LF] @ ustr ''x'') = Inl BlockCountsDiffer
   \<and> auto_train_if_possible DroppedMsg
        \<lparr>msg_file = Some [0x00, 0x16, 0x00, 0x03, 0x00, 0x00, 0x00, 0x01, 0x00, 0x01, 0x00, 0x01,
                            0x00, 0x02, 0x00, 0x01, 0x01, 0x01, 0x01, 0x02, 0x01, 0x03],
         txt_file = Some (ustr ''pqq'' @ [LF] @ ustr ''###'' @ [LF] @ ustr ''x''),
         map_file = None\<rparr>
     = (\<lparr>msg_file = Some [0x00, 0x16, 0x00, 0x03, 0x00, 0x00, 0x00, 0x01, 0x00, 0x01, 0x00, 0x01,
                            0x00, 0x02, 0x00, 0x01, 0x01, 0x01, 0x01, 0x02, 0x01, 0x03],
         txt_file = Some (ustr ''pqq'' @ [LF] @ ustr ''###'' @ [LF] @ ustr ''x''),
         map_file = None\<rparr>, [LogTrainingFailed BlockCountsDiffer], False)
   \<and> learn_mapping_from_pair
      [0x00, 0x0E, 0x00, 0x01, 0x00, 0x00, 0x00, 0x03, 0x01, 0x01, 0x01, 0x02, 0x01, 0x01]
      (ustr ''pqq'')
     = Inr ([(0x101, 0x70), (0x102, 0x71)], [(0x70, 0x101), (0x71, 0x101)])
   \<and> auto_train_if_possible DroppedTxt
        \<lparr>msg_file = Some [0x00, 0x0E, 0x00, 0x01, 0x00, 0x00, 0x00, 0x03, 0x01, 0x01, 0x01, 0x02,
                            0x01, 0x01],
         txt_file = Some (ustr ''pqq''), map_file = None\<rparr>
     = (\<lparr>msg_file = Some [0x00, 0x0E, 0x00, 0x01, 0x00, 0x00, 0x00, 0x03, 0x01, 0x01, 0x01, 0x02,
                            0x01, 0x01],
         txt_file = Some (ustr ''pqq''),
         map_file = Some \<lparr>art_unit_to_char = [(0x101, 0x70), (0x102, 0x71)],
                            art_char_to_unit = [(0x70, 0x101), (0x71, 0x101)],
                            art_count = 2\<rparr>\<rparr>, [LogTrained 2], True)"
proof -
  have u: "read_all_blocks_units
      [0x00, 0x16, 0x00, 0x03, 0x00, 0x00, 0x00, 0x01, 0x00, 0x01, 0x00, 0x01, 0x00, 0x02, 0x00, 0x01,
       0x01, 0x01, 0x01, 0x02, 0x01, 0x03]
     = Inr [[0x101], [0x102], [0x103]]"
    by (simp add: read_all_blocks_units_def container_eval)
  have t: "split_txt_into_blocks (ustr ''pqq'' @ [LF] @ ustr ''###'' @ [LF] @ ustr ''x'')
     = [ustr ''pqq'', ustr ''x'']"
    by (simp add: trainer_eval en_eval)
  have l: "learn_mapping_from_pair
      [0x00, 0x0E, 0x00, 0x01, 0x00, 0x00, 0x00, 0x03, 0x01, 0x01, 0x01, 0x02, 0x01, 0x01]
      (ustr ''pqq'')
     = Inr ([(0x101, 0x70), (0x102, 0x71)], [(0x70, 0x101), (0x71, 0x101)])"
    by (simp add: trainer_eval container_eval en_eval jp_eval)
  note a = block_count_mismatch_aborts_training
    [of "[0x00, 0x16, 0x00, 0x03, 0x00, 0x00, 0x00, 0x01, 0x00, 0x01, 0x00, 0x01, 0x00, 0x02, 0x00, 0x01,
          0x01, 0x01, 0x01, 0x02, 0x01, 0x03]"
        "[[0x101], [0x102], [0x103]]"
        "ustr ''pqq'' @ [LF] @ ustr ''###'' @ [LF] @ ustr ''x''"
        "\<lparr>msg_file = Some [0x00, 0x16, 0x00, 0x03, 0x00, 0x00, 0x00, 0x01, 0x00, 0x01, 0x00, 0x01,
                            0x00, 0x02, 0x00, 0x01, 0x01, 0x01, 0x01, 0x02, 0x01, 0x03],
         txt_file = Some (ustr ''pqq'' @ [LF] @ ustr ''###'' @ [LF] @ ustr ''x''),
         map_file = None\<rparr>" DroppedMsg]
  note b = block_count_mismatch_aborts_training
    [of _ _ _
        "\<lparr>msg_file = Some [0x00, 0x0E, 0x00, 0x01, 0x00, 0x00, 0x00, 0x03, 0x01, 0x01, 0x01, 0x02,
                            0x01, 0x01],
         txt_file = Some (ustr ''pqq''), map_file = None\<rparr>" DroppedTxt
        "[0x00, 0x0E, 0x00, 0x01, 0x00, 0x00, 0x00, 0x03, 0x01, 0x01, 0x01, 0x02, 0x01, 0x01]"
        "ustr ''pqq''"]
  from a u t have 1: "learn_mapping_from_pair
      [0x00, 0x16, 0x00, 0x03, 0x00, 0x00, 0x00, 0x01, 0x00, 0x01, 0x00, 0x01, 0x00, 0x02, 0x00, 0x01,
       0x01, 0x01, 0x01, 0x02, 0x01, 0x03]
      (ustr ''pqq'' @ [LF] @ ustr ''###'' @ [LF] @ ustr ''x'') = Inl BlockCountsDiffer
   \<and> auto_train_if_possible DroppedMsg
        \<lparr>msg_file = Some [0x00, 0x16, 0x00, 0x03, 0x00, 0x00, 0x00, 0x01, 0x00, 0x01, 0x00, 0x01,
                            0x00, 0x02, 0x00, 0x01, 0x01, 0x01, 0x01, 0x02, 0x01, 0x03],
         txt_file = Some (ustr ''pqq'' @ [LF] @ ustr ''###'' @ [LF] @ ustr ''x''),
         map_file = None\<rparr>
     = (\<lparr>msg_file = Some [0x00, 0x16, 0x00, 0x03, 0x00, 0x00, 0x00, 0x01, 0x00, 0x01, 0x00, 0x01,
                            0x00, 0x02, 0x00, 0x01, 0x01, 0x01, 0x01, 0x02, 0x01, 0x03],
         txt_file = Some (ustr ''pqq'' @ [LF] @ ustr ''###'' @ [LF] @ ustr ''x''),
         map_file = None\<rparr>, [LogTrainingFailed BlockCountsDiffer], False)"
    by simp
  from b l have 2: "auto_train_if_possible DroppedTxt
        \<lparr>msg_file = Some [0x00, 0x0E, 0x00, 0x01, 0x00, 0x00, 0x00, 0x03, 0x01, 0x01, 0x01, 0x02,
                            0x01, 0x01],
         txt_file = Some (ustr ''pqq''), map_file = None\<rparr>
     = (\<lparr>msg_file = Some [0x00, 0x0E, 0x00, 0x01, 0x00, 0x00, 0x00, 0x03, 0x01, 0x01, 0x01, 0x02,
                            0x01, 0x01],
         txt_file = Some (ustr ''pqq''),
         map_file = Some \<lparr>art_unit_to_char = [(0x101, 0x70), (0x102, 0x71)],
                            art_char_to_unit = [(0x70, 0x101), (0x71, 0x101)],
                            art_count = 2\<rparr>\<rparr>, [LogTrained 2], True)"
    by simp
  from u t l 1 2 show ?thesis by simp
qed

section \<open>The learned tables never hold newline keys\<close>

lemma counter_add_keys_list:
  "map fst (counter_add k n ctr) =
     (if k \<in> set (map fst ctr) then map fst ctr else map fst ctr @ [k])"
  by (induction ctr) (force simp: image_iff)+

lemma counter_add_keys: "fst ` set (counter_add k n ctr) = insert k (fst ` set ctr)"
  using counter_add_keys_list [of k n ctr]
  by (metis (no_types, lifting) insert_absorb list.set_map set_append Un_insert_right
      sup_bot.right_neutral list.simps(15) empty_set)

lemma counts_add_keys_list:
  "map fst (counts_add a b n counts) =
     (if a \<in> set (map fst counts) then map fst counts else map fst counts @ [a])"
  by (induction counts) (force simp: image_iff)+

lemma counts_add_unit_keys: "unit_keys (counts_add a b n counts) = insert a (unit_keys counts)"
proof -
  have "unit_keys (counts_add a b n counts) = set (map fst (counts_add a b n counts))"
    by (simp add: unit_keys_def)
  also have "\<dots> = insert a (set (map fst counts))"
    by (auto simp: counts_add_keys_list)
  finally show ?thesis by (simp add: unit_keys_def)
qed

lemma char_keys_Cons: "char_keys ((a, ctr) # counts) = fst ` set ctr \<union> char_keys counts"
  by (simp add: char_keys_def)

lemma unit_keys_Nil: "unit_keys [] = {}"
  by (simp add: unit_keys_def)

lemma char_keys_Nil: "char_keys [] = {}"
  by (simp add: char_keys_def)

lemma counts_add_char_keys: "char_keys (counts_add a b n counts) = insert b (char_keys counts)"
proof (induction counts)
  case Nil
  then show ?case by (simp add: char_keys_Cons char_keys_Nil)
next
  case (Cons p counts)
  obtain a' ctr where p: "p = (a', ctr)" by (cases p)
  show ?case
    using Cons by (auto simp: p char_keys_Cons counter_add_keys)
qed

lemma skip_newlines_stops:
  "skip_newlines ref j < length ref \<Longrightarrow> ref ! skip_newlines ref j \<noteq> LF"
proof (induction ref j rule: skip_newlines.induct)
  case (1 ref j)
  show ?case
  proof (cases "j < length ref \<and> ref ! j = LF")
    case True
    then have "skip_newlines ref j = skip_newlines ref (j + 1)"
      by (subst skip_newlines.simps) simp
    with 1 True show ?thesis by simp
  next
    case False
    then have "skip_newlines ref j = j"
      by (subst skip_newlines.simps) auto
    with 1 False show ?thesis by auto
  qed
qed

lemma align_block_keys:
  "unit_keys (align_block ub ref j counts) \<subseteq> unit_keys counts \<union> (set ub - {NEWLINE_000A, NEWLINE_8016})
   \<and> char_keys (align_block ub ref j counts) \<subseteq> char_keys counts \<union> (set ref - {LF})"
proof (induction ub ref j counts rule: align_block.induct)
  case (1 ref j counts)
  then show ?case by simp
next
  case (2 u ub ref j counts)
  show ?case
  proof (cases "u = NEWLINE_000A \<or> u = NEWLINE_8016")
    case True
    with 2(1) show ?thesis by auto
  next
    case False
    show ?thesis
    proof (cases "skip_newlines ref j \<ge> length ref")
      case True
      with False show ?thesis by (auto simp: Let_def)
    next
      case stop: False
      then have "ref ! skip_newlines ref j \<noteq> LF" "ref ! skip_newlines ref j \<in> set ref"
        using skip_newlines_stops by auto
      with 2(2) [OF False refl stop] False stop show ?thesis
        by (auto simp: Let_def counts_add_unit_keys counts_add_char_keys)
    qed
  qed
qed

lemma align_blocks_keys:
  "unit_keys (align_blocks pairs counts) \<subseteq> unit_keys counts \<union> (UNIV - {NEWLINE_000A, NEWLINE_8016})
   \<and> char_keys (align_blocks pairs counts) \<subseteq> char_keys counts \<union> (UNIV - {LF})"
proof (induction pairs counts rule: align_blocks.induct)
  case (1 counts)
  then show ?case by simp
next
  case (2 ub tb pairs counts)
  from 2 align_block_keys [of ub "strip_nl_tags_keep_newline tb" 0 counts]
  show ?case by auto
qed

lemma choose_most_common_keys:
  "choose_most_common counts = Inr chosen \<Longrightarrow> map fst chosen = map fst counts"
  by (induction counts arbitrary: chosen rule: choose_most_common.induct)
     (auto split: sum.splits)

lemma fold_counts_add_unit_keys:
  "unit_keys (fold (\<lambda>(ch, n) rc. counts_add ch u n rc) ctr rc) = unit_keys rc \<union> fst ` set ctr"
  by (induction ctr arbitrary: rc) (auto simp: counts_add_unit_keys)

lemma reverse_counts_fold_unit_keys:
  "unit_keys (fold (\<lambda>(u, ctr) rev_counts. fold (\<lambda>(ch, n) rc. counts_add ch u n rc) ctr rev_counts)
       counts rc) = unit_keys rc \<union> char_keys counts"
proof (induction counts arbitrary: rc)
  case Nil
  then show ?case by (simp add: char_keys_Nil)
next
  case (Cons p counts)
  obtain u ctr where p: "p = (u, ctr)" by (cases p)
  show ?case
    by (simp add: p Cons fold_counts_add_unit_keys char_keys_Cons Un_assoc)
qed

lemma reverse_counts_unit_keys: "unit_keys (reverse_counts counts) = char_keys counts"
  by (simp add: reverse_counts_def reverse_counts_fold_unit_keys unit_keys_Nil)

lemma learn_mapping_keys:
  assumes "learn_mapping_from_pair data txt_text = Inr (unit_to_char, char_to_unit)"
  shows "\<exists>counts. fst ` set unit_to_char = unit_keys counts
          \<and> fst ` set char_to_unit = char_keys counts
          \<and> unit_keys counts \<subseteq> UNIV - {NEWLINE_000A, NEWLINE_8016}
          \<and> char_keys counts \<subseteq> UNIV - {LF}"
proof -
  from assms obtain ubs where ubs: "read_all_blocks_units data = Inr ubs"
    by (auto simp: learn_mapping_from_pair_def split: sum.splits)
  define counts where "counts = align_blocks (zip ubs (split_txt_into_blocks txt_text)) []"
  from assms ubs have c1: "choose_most_common counts = Inr unit_to_char"
    and c2: "choose_most_common (reverse_counts counts) = Inr char_to_unit"
    by (auto simp: learn_mapping_from_pair_def counts_def Let_def split: sum.splits if_splits)
  have "fst ` set unit_to_char = unit_keys counts"
    using choose_most_common_keys [OF c1] by (metis unit_keys_def list.set_map)
  moreover have "fst ` set char_to_unit = char_keys counts"
    using choose_most_common_keys [OF c2] reverse_counts_unit_keys [of counts]
    by (metis unit_keys_def list.set_map)
  moreover have "unit_keys counts \<subseteq> UNIV - {NEWLINE_000A, NEWLINE_8016}"
    "char_keys counts \<subseteq> UNIV - {LF}"
    using align_blocks_keys [of "zip ubs (split_txt_into_blocks txt_text)" "[]"]
    by (auto simp: counts_def unit_keys_def char_keys_def)
  ultimately show ?thesis by blast
qed

text \<open>
  Claim C10. When training succeeds, neither newline code unit (0x000A, 0x8016) is a key
  of the learned unit-to-glyph table, and the line break character is not a key of the
  learned glyph-to-unit table.
\<close>

theorem learned_mapping_has_no_newline_keys:
  "learn_mapping_from_pair data txt_text = Inr (unit_to_char, char_to_unit) \<Longrightarrow>
     map_of unit_to_char NEWLINE_000A = None \<and> map_of unit_to_char NEWLINE_8016 = None
     \<and> map_of char_to_unit LF = None"
  using learn_mapping_keys [of data txt_text unit_to_char char_to_unit]
  by (auto simp: map_of_eq_None_iff)

theorem learned_mapping_has_no_newline_keys_witness:
  "learn_mapping_from_pair
       [0x00, 0x12, 0x00, 0x01, 0x00, 0x00, 0x00, 0x05, 0x01, 0x01, 0x80, 0x16, 0x01, 0x02,
        0x00, 0x0A, 0x01, 0x01]
       (ustr ''p<NL_8016>'' @ [LF] @ ustr ''q<NL_000A>'' @ [LF] @ ustr ''q'')
     = Inr ([(0x101, 0x70), (0x102, 0x71)], [(0x70, 0x101), (0x71, 0x101)])
   \<and> map_of [(0x101, 0x70), (0x102, 0x71 :: nat)] (0x000A :: nat) = None
   \<and> map_of [(0x101, 0x70), (0x102, 0x71 :: nat)] (0x8016 :: nat) = None
   \<and> map_of [(0x70, 0x101), (0x71, 0x101 :: nat)] (0x0A :: nat) = None"
proof -
  have l: "learn_mapping_from_pair
       [0x00, 0x12, 0x00, 0x01, 0x00, 0x00, 0x00, 0x05, 0x01, 0x01, 0x80, 0x16, 0x01, 0x02,
        0x00, 0x0A, 0x01, 0x01]
       (ustr ''p<NL_8016>'' @ [LF] @ ustr ''q<NL_000A>'' @ [LF] @ ustr ''q'')
     = Inr ([(0x101, 0x70), (0x102, 0x71)], [(0x70, 0x101), (0x71, 0x101)])"
    by (simp add: trainer_eval container_eval en_eval jp_eval)
  from learned_mapping_has_no_newline_keys [OF l] l show ?thesis
    by (simp add: settings_defs)
qed

section \<open>Round trip of the Latin transcoder\<close>

lemma encode_loop_unfold:
  "encode_loop s d i units =
     (if i < length s then
        (if at_tagged_newline s NL_TAG_8016 i
         then encode_loop s d (Suc (i + length NL_TAG_8016)) (units @ [NEWLINE_8016])
         else if at_tagged_newline s NL_TAG_000A i
         then encode_loop s d (Suc (i + length NL_TAG_000A)) (units @ [NEWLINE_000A])
         else encode_loop s d (Suc i)
                (units @ [if s ! i = LF then d
                          else if is_lower_az (s ! i) then s ! i + 0x80 else s ! i]))
      else units)"
  by (subst encode_loop.simps) (simp add: at_tagged_newline_def TAG_NEWLINES_def)

lemma encode_loop_suffix:
  "encode_loop s d i units = units @ encode_loop (drop i s) d 0 []"
proof (induction "length s - i" arbitrary: s i units rule: less_induct)
  case less
  show ?case
  proof (cases "i < length s")
    case False
    then show ?thesis
      by (simp add: encode_loop_unfold [of s d i] encode_loop_unfold [of "[]" d 0])
  next
    case True
    have L: "\<And>k us. encode_loop s d (Suc (i + k)) us
        = us @ encode_loop (drop (Suc (i + k)) s) d 0 []"
      using True by (intro less) simp
    have R: "\<And>k us. encode_loop (drop i s) d (Suc k) us
        = us @ encode_loop (drop (Suc (i + k)) s) d 0 []"
    proof -
      fix k :: nat and us
      have "length (drop i s) - Suc k < length s - i" using True by simp
      from less [OF this] show "encode_loop (drop i s) d (Suc k) us
        = us @ encode_loop (drop (Suc (i + k)) s) d 0 []"
        by (simp add: add.commute)
    qed
    note L0 = L [of 0, simplified] and R0 = R [of 0, simplified]
    have hd: "drop i s ! 0 = s ! i" using True by simp
    have tg: "at_tagged_newline (drop i s) tag 0 = at_tagged_newline s tag i" for tag
      using True by (simp add: at_tagged_newline_drop)
    show ?thesis
      using True
      by (subst encode_loop_unfold [of s d i], subst encode_loop_unfold [of "drop i s" d 0])
         (simp add: tg hd L R L0 R0)
  qed
qed

lemma encode_Nil: "encode_text_to_units [] d = []"
  by (simp add: encode_text_to_units_def encode_loop_unfold)

lemma encode_tagged_8016:
  assumes "at_tagged_newline s NL_TAG_8016 0"
  shows "encode_text_to_units s d
       = NEWLINE_8016 # encode_text_to_units (drop (Suc (length NL_TAG_8016)) s) d"
proof -
  have "0 < length s" using assms by (auto simp: at_tagged_newline_def)
  with assms show ?thesis
    unfolding encode_text_to_units_def
    by (subst encode_loop_unfold) (simp add: encode_loop_suffix [of s d "Suc _"])
qed

lemma encode_tagged_000A:
  assumes "\<not> at_tagged_newline s NL_TAG_8016 0" "at_tagged_newline s NL_TAG_000A 0"
  shows "encode_text_to_units s d
       = NEWLINE_000A # encode_text_to_units (drop (Suc (length NL_TAG_000A)) s) d"
proof -
  have "0 < length s" using assms by (auto simp: at_tagged_newline_def)
  with assms show ?thesis
    unfolding encode_text_to_units_def
    by (subst encode_loop_unfold) (simp add: encode_loop_suffix [of s d "Suc _"])
qed

lemma encode_plain:
  assumes "\<not> at_tagged_newline (c # rest) NL_TAG_8016 0"
    and "\<not> at_tagged_newline (c # rest) NL_TAG_000A 0"
  shows "encode_text_to_units (c # rest) d
       = (if c = LF then d else if is_lower_az c then c + 0x80 else c)
         # encode_text_to_units rest d"
  using assms
  unfolding encode_text_to_units_def
  by (subst encode_loop_unfold) (simp add: encode_loop_suffix [of "c # rest" d "Suc 0"])

lemma endswith_suffix: "endswith s tag = suffix tag s"
proof
  assume "endswith s tag"
  then have "s = take (length s - length tag) s @ tag"
    by (metis append_take_drop_id endswith_def)
  then show "suffix tag s" by (metis suffixI)
next
  assume "suffix tag s"
  then obtain zs where "s = zs @ tag" by (auto simp: suffix_def)
  then show "endswith s tag" by (simp add: endswith_def)
qed

lemma all_less_Suc_shift: "(\<forall>k<Suc n. P k) = (P 0 \<and> (\<forall>k<n. P (Suc k)))"
  by (metis less_Suc_eq_0_disj Suc_less_eq zero_less_Suc)

lemma tagged_from_index:
  "tagged_from seen s = (\<forall>k<length s. s ! k = LF \<longrightarrow>
       suffix NL_TAG_8016 (seen @ take k s) \<or> suffix NL_TAG_000A (seen @ take k s))"
  by (induction s arbitrary: seen) (simp_all add: all_less_Suc_shift endswith_suffix)

lemma suffix_after_LF:
  assumes "LF \<notin> set tag" "suffix tag (p @ LF # q)"
  shows "suffix tag q"
proof -
  from assms(2) have "suffix tag (LF # q) \<or> (\<exists>xs'. tag = xs' @ LF # q \<and> suffix xs' p)"
    by (simp add: suffix_append)
  with assms(1) have "suffix tag (LF # q)" by auto
  with assms(1) show ?thesis by (auto simp: suffix_Cons)
qed

lemma tags_without_LF: "LF \<notin> set NL_TAG_8016" "LF \<notin> set NL_TAG_000A"
  by (simp_all add: settings_defs ustr_simps)

lemma tagged_within_after_LF:
  assumes "tagged_within (p @ LF # r)"
  shows "tagged_within r"
  unfolding tagged_within_def
proof (intro allI impI)
  fix k assume k: "k < length r" "r ! k = LF"
  let ?j = "length p + Suc k"
  have "?j < length (p @ LF # r)" "(p @ LF # r) ! ?j = LF"
    using k by (simp_all add: nth_append)
  with assms have "suffix NL_TAG_8016 (take ?j (p @ LF # r)) \<or> suffix NL_TAG_000A (take ?j (p @ LF # r))"
    unfolding tagged_within_def by blast
  moreover have "take ?j (p @ LF # r) = p @ LF # take k r" by simp
  ultimately show "suffix NL_TAG_8016 (take k r) \<or> suffix NL_TAG_000A (take k r)"
    using suffix_after_LF tags_without_LF by metis
qed

lemma tagged_within_head: "tagged_within (c # rest) \<Longrightarrow> c \<noteq> LF"
  unfolding tagged_within_def
  by (auto simp: settings_defs ustr_simps dest!: spec [where x = 0])

lemma tagged_within_tail:
  assumes "tagged_within (c # rest)"
    and "\<not> at_tagged_newline (c # rest) NL_TAG_8016 0"
    and "\<not> at_tagged_newline (c # rest) NL_TAG_000A 0"
  shows "tagged_within rest"
  unfolding tagged_within_def
proof (intro allI impI)
  fix k assume k: "k < length rest" "rest ! k = LF"
  have nt: "tag \<noteq> c # take k rest" if "\<not> at_tagged_newline (c # rest) tag 0" for tag
  proof
    assume "tag = c # take k rest"
    then have "at_tagged_newline (c # rest) tag 0"
      using k by (simp add: at_tagged_newline_def startswith_def min_def)
    with that show False by simp
  qed
  from assms(1) k have "suffix NL_TAG_8016 (take (Suc k) (c # rest)) \<or> suffix NL_TAG_000A (take (Suc k) (c # rest))"
    unfolding tagged_within_def by (metis Suc_less_eq length_Cons nth_Cons_Suc)
  then show "suffix NL_TAG_8016 (take k rest) \<or> suffix NL_TAG_000A (take k rest)"
    using nt [OF assms(2)] nt [OF assms(3)] by (auto simp: suffix_Cons)
qed

lemma decode_units_Cons_ok:
  "decode_unit tag u = Inr s \<Longrightarrow> decode_units_to_text us tag = Inr out \<Longrightarrow>
   decode_units_to_text (u # us) tag = Inr (s @ out)"
  by simp

lemma roundtrip_tagged_within:
  "tagged_within s \<Longrightarrow> ascii_only s \<Longrightarrow>
   decode_units_to_text (encode_text_to_units s d) True = Inr s"
proof (induction "length s" arbitrary: s rule: less_induct)
  case less
  show ?case
  proof (cases s)
    case Nil
    then show ?thesis by (simp add: encode_Nil)
  next
    case (Cons c rest)
    consider (t1) "at_tagged_newline s NL_TAG_8016 0"
      | (t2) "\<not> at_tagged_newline s NL_TAG_8016 0" "at_tagged_newline s NL_TAG_000A 0"
      | (plain) "\<not> at_tagged_newline s NL_TAG_8016 0" "\<not> at_tagged_newline s NL_TAG_000A 0"
      by blast
    then show ?thesis
    proof cases
      case t1
      let ?r = "drop (Suc (length NL_TAG_8016)) s"
      have sp: "s = NL_TAG_8016 @ LF # ?r" using tagged_block_split [OF t1] by simp
      have "tagged_within ?r" using less.prems(1) sp tagged_within_after_LF by metis
      moreover have "ascii_only ?r" using less.prems(2)
        by (auto simp: ascii_only_def dest: in_set_dropD)
      moreover have "length ?r < length s" using Cons by simp
      ultimately have "decode_units_to_text (encode_text_to_units ?r d) True = Inr ?r"
        using less.hyps by blast
      then have "decode_units_to_text (encode_text_to_units s d) True = Inr (NL_TAG_8016 @ LF # ?r)"
        by (simp add: encode_tagged_8016 [OF t1] decode_unit_def NEWLINE_8016_def NEWLINE_000A_def)
      with sp show ?thesis by simp
    next
      case t2
      let ?r = "drop (Suc (length NL_TAG_000A)) s"
      have sp: "s = NL_TAG_000A @ LF # ?r" using tagged_block_split [OF t2(2)] by simp
      have "tagged_within ?r" using less.prems(1) sp tagged_within_after_LF by metis
      moreover have "ascii_only ?r" using less.prems(2)
        by (auto simp: ascii_only_def dest: in_set_dropD)
      moreover have "length ?r < length s" using Cons by simp
      ultimately have "decode_units_to_text (encode_text_to_units ?r d) True = Inr ?r"
        using less.hyps by blast
      then have "decode_units_to_text (encode_text_to_units s d) True = Inr (NL_TAG_000A @ LF # ?r)"
        by (simp add: encode_tagged_000A [OF t2] decode_unit_def NEWLINE_8016_def NEWLINE_000A_def)
      with sp show ?thesis by simp
    next
      case plain
      have c: "c \<noteq> LF" "c < 0x80"
        using less.prems Cons tagged_within_head by (auto simp: ascii_only_def)
      have "tagged_within rest" using tagged_within_tail less.prems(1) plain Cons by blast
      moreover have "ascii_only rest" using less.prems(2) Cons by (simp add: ascii_only_def)
      ultimately have ih: "decode_units_to_text (encode_text_to_units rest d) True = Inr rest"
        using less.hyps Cons by simp
      have "decode_unit True (if is_lower_az c then c + 0x80 else c) = Inr [c]"
        using c by (auto simp: decode_unit_def is_lower_az_def chr_def settings_defs)
      with c ih plain Cons show ?thesis
        by (simp add: encode_plain)
    qed
  qed
qed

text \<open>
  Claim C1, as amended. For every text whose characters are all below U+0080 and in which
  every line break is immediately preceded by one of the two newline tags (so it has no
  bare line break), decoding the code units produced by \<^verbatim>\<open>_encode_text_to_units\<close>
  with tagging enabled gives the text back, whatever the default newline code is.
\<close>

theorem latin_roundtrip:
  "ascii_only s \<Longrightarrow> every_line_break_tagged s \<Longrightarrow>
   decode_units_to_text (encode_text_to_units s d) TAG_NEWLINES = Inr s"
  using roundtrip_tagged_within [of s d]
  by (simp add: every_line_break_tagged_def tagged_from_index tagged_within_def TAG_NEWLINES_def)

theorem latin_roundtrip_witness:
  "ascii_only (ustr ''Hello/n'' @ [LF] @ ustr ''All/good/nn'' @ [LF] @ ustr ''End'')
   \<and> every_line_break_tagged (ustr ''Hello/n'' @ [LF] @ ustr ''All/good/nn'' @ [LF] @ ustr ''End'')
   \<and> decode_units_to_text
        (encode_text_to_units (ustr ''Hello/n'' @ [LF] @ ustr ''All/good/nn'' @ [LF] @ ustr ''End'')
           DEFAULT_ENCODE_NEWLINE) TAG_NEWLINES
       = Inr (ustr ''Hello/n'' @ [LF] @ ustr ''All/good/nn'' @ [LF] @ ustr ''End'')"
proof -
  have a: "ascii_only (ustr ''Hello/n'' @ [LF] @ ustr ''All/good/nn'' @ [LF] @ ustr ''End'')"
    by (simp add: ascii_only_def en_eval)
  have b: "every_line_break_tagged (ustr ''Hello/n'' @ [LF] @ ustr ''All/good/nn'' @ [LF] @ ustr ''End'')"
    by (simp add: every_line_break_tagged_def endswith_def en_eval)
  from latin_roundtrip [OF a b] a b show ?thesis by simp
qed

text \<open>
  The claim as stated fails for a text with a bare line break: the encoder stores the
  default newline code for it, and the decoder (tagging enabled) writes that code back
  with its tag, so the result has gained a tag.
\<close>

theorem latin_roundtrip_counterexample:
  "decode_units_to_text (encode_text_to_units (ustr ''a'' @ [LF] @ ustr ''b'') DEFAULT_ENCODE_NEWLINE)
      TAG_NEWLINES = Inr (ustr ''a/n'' @ [LF] @ ustr ''b'')
   \<and> decode_units_to_text (encode_text_to_units (ustr ''a'' @ [LF] @ ustr ''b'') DEFAULT_ENCODE_NEWLINE)
      TAG_NEWLINES \<noteq> Inr (ustr ''a'' @ [LF] @ ustr ''b'')"
  by (simp add: en_eval encode_loop.simps)

section \<open>Splitting a joined document\<close>

lemma LF_facts: "LF \<noteq> CR" "is_linebreak LF" "is_linebreak CR"
  by (simp_all add: LF_def CR_def is_linebreak_def)

lemma join_Cons_nonempty: "ys \<noteq> [] \<Longrightarrow> join sep (x # ys) = x @ sep @ join sep ys"
  by (cases ys) simp_all

lemma join_append_sep:
  "bs \<noteq> [] \<Longrightarrow> join sep bs @ sep = concat (map (\<lambda>b. b @ sep) bs)"
  by (induction sep bs rule: join.induct) simp_all

lemma rstrip_newlines_id: "b = [] \<or> last b \<noteq> LF \<Longrightarrow> rstrip_newlines b = b"
  by (cases b rule: rev_cases) (auto simp: rstrip_newlines_def)

lemma lf_split_from_nonempty: "lf_split_from cur s \<noteq> []"
  by (induction s arbitrary: cur) auto

lemma join_lf_split: "join [LF] (lf_split_from cur s) = cur @ s"
  by (induction s arbitrary: cur) (auto simp: join_Cons_nonempty lf_split_from_nonempty)

lemma splitlines_from_line:
  "lf_only line \<Longrightarrow> LF \<notin> set line \<Longrightarrow>
   splitlines_from cur (line @ LF # rest) = (cur @ line) # splitlines_from [] rest"
proof (induction line arbitrary: cur)
  case Nil
  then show ?case by (simp add: LF_facts)
next
  case (Cons c line)
  then have "\<not> is_linebreak c" "c \<noteq> CR"
    using LF_facts by (auto simp: lf_only_def)
  with Cons show ?case by (simp add: lf_only_def)
qed

lemma splitlines_from_block:
  "lf_only b \<Longrightarrow>
   splitlines_from cur (b @ LF # rest) = lf_split_from cur b @ splitlines_from [] rest"
proof (induction b arbitrary: cur)
  case Nil
  then show ?case by (simp add: LF_facts)
next
  case (Cons c b)
  show ?case
  proof (cases "c = LF")
    case True
    with Cons show ?thesis by (simp add: LF_facts lf_only_def)
  next
    case False
    with Cons.prems have "\<not> is_linebreak c" "c \<noteq> CR"
      using LF_facts by (auto simp: lf_only_def)
    with Cons False show ?thesis by (simp add: lf_only_def)
  qed
qed

lemma lf_split_lines:
  "lf_only b \<Longrightarrow> set (lf_split_from cur b) \<subseteq> insert [] (set (splitlines_from cur b))"
proof (induction b arbitrary: cur)
  case Nil
  then show ?case by simp
next
  case (Cons c b)
  show ?case
  proof (cases "c = LF")
    case True
    with Cons show ?thesis by (auto simp: LF_facts lf_only_def)
  next
    case False
    with Cons.prems have "\<not> is_linebreak c" "c \<noteq> CR"
      using LF_facts by (auto simp: lf_only_def)
    with Cons False show ?thesis by (simp add: lf_only_def)
  qed
qed

lemma strip_facts: "strip [] \<noteq> BLOCK_SEPARATOR" "strip BLOCK_SEPARATOR = BLOCK_SEPARATOR"
  "lf_only BLOCK_SEPARATOR" "LF \<notin> set BLOCK_SEPARATOR"
  by (simp_all add: strip_def BLOCK_SEPARATOR_def ustr_simps is_space_def lf_only_def
      is_linebreak_def LF_def)

lemma split_loop_lines:
  "\<forall>l \<in> set ls. strip l \<noteq> BLOCK_SEPARATOR \<Longrightarrow>
   split_loop (ls @ rest) parts cur = split_loop rest parts (cur @ ls)"
  by (induction ls arbitrary: cur) simp_all

lemma split_loop_blocks:
  "\<forall>b \<in> set bs. clean_block b \<Longrightarrow>
   split_loop (splitlines_from [] (concat (map block_text bs))) parts [] = (parts @ bs, [])"
proof (induction bs arbitrary: parts)
  case Nil
  then show ?case by simp
next
  case (Cons b bs)
  let ?T = "concat (map block_text bs)"
  from Cons.prems have cb: "clean_block b" by simp
  then have lf: "lf_only b" by (simp add: clean_block_def)
  have lines: "\<forall>l \<in> set (lf_split_from [] b). strip l \<noteq> BLOCK_SEPARATOR"
    using cb lf_split_lines [OF lf, of "[]"] strip_facts(1)
    by (auto simp: clean_block_def splitlines_def)
  have "splitlines_from [] (concat (map block_text (b # bs)))
      = splitlines_from [] (b @ LF # (BLOCK_SEPARATOR @ LF # ?T))"
    by (simp add: block_text_def)
  also have "\<dots> = lf_split_from [] b @ splitlines_from [] (BLOCK_SEPARATOR @ LF # ?T)"
    by (rule splitlines_from_block [OF lf])
  also have "splitlines_from [] (BLOCK_SEPARATOR @ LF # ?T)
      = BLOCK_SEPARATOR # splitlines_from [] ?T"
    using splitlines_from_line [OF strip_facts(3) strip_facts(4), of "[]"] by simp
  finally have sl: "splitlines_from [] (concat (map block_text (b # bs)))
      = lf_split_from [] b @ BLOCK_SEPARATOR # splitlines_from [] ?T" .
  have "split_loop (splitlines_from [] (concat (map block_text (b # bs)))) parts []
      = split_loop (BLOCK_SEPARATOR # splitlines_from [] ?T) parts (lf_split_from [] b)"
    unfolding sl using split_loop_lines [OF lines] by simp
  also have "\<dots> = split_loop (splitlines_from [] ?T) (parts @ [b]) []"
    by (simp add: strip_facts join_lf_split)
  also have "\<dots> = ((parts @ [b]) @ bs, [])"
    using Cons by simp
  finally show ?case by simp
qed

text \<open>
  Claim C7, as amended. For every non-empty list of blocks, each of which is non-empty,
  does not end with a line break, contains no line boundary character other than LF and
  has no line that equals the separator once surrounding whitespace is stripped,
  splitting the document made from the blocks returns the blocks.
\<close>

theorem split_join_roundtrip:
  "bs \<noteq> [] \<Longrightarrow> \<forall>b \<in> set bs. clean_block b \<Longrightarrow>
   split_txt_into_blocks (make_txt_from_blocks bs) = bs"
proof -
  assume ne: "bs \<noteq> []" and cl: "\<forall>b \<in> set bs. clean_block b"
  have "map rstrip_newlines bs = bs"
    using cl by (auto simp: clean_block_def rstrip_newlines_id intro: map_idI)
  then have "make_txt_from_blocks bs = concat (map block_text bs)"
    using ne join_append_sep [of bs "[LF] @ BLOCK_SEPARATOR @ [LF]"]
    by (simp add: make_txt_from_blocks_def block_text_def [abs_def])
  moreover have "last bs \<noteq> []" using ne cl by (auto simp: clean_block_def)
  ultimately show ?thesis
    using ne split_loop_blocks [OF cl, of "[]"]
    by (simp add: split_txt_into_blocks_def splitlines_def)
qed

theorem split_join_roundtrip_witness:
  "clean_block (ustr ''Hello/n'' @ [LF] @ ustr ''you'') \<and> clean_block (ustr ''## #'')
   \<and> split_txt_into_blocks
        (make_txt_from_blocks [ustr ''Hello/n'' @ [LF] @ ustr ''you'', ustr ''## #''])
       = [ustr ''Hello/n'' @ [LF] @ ustr ''you'', ustr ''## #'']"
proof -
  have c: "clean_block (ustr ''Hello/n'' @ [LF] @ ustr ''you'')" "clean_block (ustr ''## #'')"
    by (simp_all add: clean_block_def lf_only_def trainer_eval en_eval)
  then have "\<forall>b \<in> set [ustr ''Hello/n'' @ [LF] @ ustr ''you'', ustr ''## #'']. clean_block b"
    by simp
  from split_join_roundtrip [OF _ this] c show ?thesis by simp
qed

text \<open>
  The claim as stated fails for a block that ends with a line break: the one-block list
  holding \<^verbatim>\<open>a\<close> followed by a line break (a non-empty block whose only line is
  \<^verbatim>\<open>a\<close>) comes back without the line break, because joining strips trailing
  line breaks.
\<close>

theorem split_join_roundtrip_counterexample:
  "ustr ''a'' @ [LF] \<noteq> []
   \<and> splitlines (ustr ''a'' @ [LF]) = [ustr ''a'']
   \<and> ustr ''a'' \<noteq> BLOCK_SEPARATOR
   \<and> split_txt_into_blocks (make_txt_from_blocks [ustr ''a'' @ [LF]]) = [ustr ''a'']
   \<and> split_txt_into_blocks (make_txt_from_blocks [ustr ''a'' @ [LF]]) \<noteq> [ustr ''a'' @ [LF]]"
  by (simp add: trainer_eval en_eval)

section \<open>The choices made by training\<close>

subsection \<open>The walk as a fold over its observations\<close>

lemma align_block_fold:
  "align_block ub ref j counts = fold (\<lambda>(u, c). counts_add u c 1) (observe_block ub ref j) counts"
  by (induction ub ref j counts rule: align_block.induct) (simp_all add: Let_def)

lemma align_blocks_fold:
  "align_blocks pairs counts = fold (\<lambda>(u, c). counts_add u c 1) (observe_blocks pairs) counts"
  by (induction pairs counts rule: align_blocks.induct) (simp_all add: align_block_fold)

lemma align_blocks_tally:
  "align_blocks pairs [] = tally_into (map (\<lambda>(u, c). (u, c, 1)) (observe_blocks pairs)) []"
  by (simp add: align_blocks_fold tally_into_def fold_map comp_def case_prod_unfold)

(* keys in order of first occurrence *)

lemma firsts_into_Nil: "firsts_into [] acc = acc"
  by (simp add: firsts_into_def)

lemma firsts_into_snoc:
  "firsts_into (xs @ [x]) acc =
     (if x \<in> set (firsts_into xs acc) then firsts_into xs acc else firsts_into xs acc @ [x])"
  by (simp add: firsts_into_def)

lemma set_firsts_into: "set (firsts_into xs acc) = set acc \<union> set xs"
  by (induction xs rule: rev_induct) (auto simp: firsts_into_snoc firsts_into_Nil)

lemma distinct_firsts_into: "distinct acc \<Longrightarrow> distinct (firsts_into xs acc)"
  by (induction xs rule: rev_induct) (auto simp: firsts_into_snoc firsts_into_Nil)

lemma firsts_order:
  "firsts_into xs [] = us @ k # vs \<Longrightarrow> k' \<in> set vs \<Longrightarrow>
   \<exists>pre post. xs = pre @ k # post \<and> k' \<notin> set pre"
proof (induction xs arbitrary: vs rule: rev_induct)
  case Nil
  then show ?case by (simp add: firsts_into_Nil)
next
  case (snoc x xs)
  show ?case
  proof (cases "x \<in> set (firsts_into xs [])")
    case True
    with snoc.prems have "firsts_into xs [] = us @ k # vs"
      by (simp add: firsts_into_snoc)
    from snoc.IH [OF this snoc.prems(2)] obtain pre post where
      "xs = pre @ k # post" "k' \<notin> set pre" by blast
    then have "xs @ [x] = pre @ k # (post @ [x])" by simp
    with \<open>k' \<notin> set pre\<close> show ?thesis by blast
  next
    case False
    with snoc.prems have eq: "firsts_into xs [] @ [x] = us @ k # vs"
      by (simp add: firsts_into_snoc)
    from snoc.prems(2) have "vs \<noteq> []" by auto
    then obtain vs' where vs: "vs = vs' @ [last vs]" by (metis append_butlast_last_id)
    with eq have f: "firsts_into xs [] = us @ k # vs'" and lx: "last vs = x"
      by (metis append_assoc append_Cons butlast_snoc, metis append_assoc append_Cons last_snoc)
    show ?thesis
    proof (cases "k' \<in> set vs'")
      case True
      from snoc.IH [OF f True] obtain pre post where
        "xs = pre @ k # post" "k' \<notin> set pre" by blast
      then have "xs @ [x] = pre @ k # (post @ [x])" by simp
      with \<open>k' \<notin> set pre\<close> show ?thesis by blast
    next
      case nv: False
      with snoc.prems(2) vs lx have k'x: "k' = x"
        by (metis Un_iff empty_iff empty_set set_ConsD set_append)
      have "k \<in> set xs" using f set_firsts_into [of xs "[]"] by auto
      then obtain pre post where p: "xs = pre @ k # post" by (meson split_list)
      have "x \<notin> set xs" using False set_firsts_into [of xs "[]"] by simp
      with p k'x have "k' \<notin> set pre" by auto
      moreover from p have "xs @ [x] = pre @ k # (post @ [x])" by simp
      ultimately show ?thesis by blast
    qed
  qed
qed

(* counters *)

lemma counter_into_keys:
  "map fst (counter_into ps ctr) = firsts_into (map fst ps) (map fst ctr)"
proof (induction ps arbitrary: ctr)
  case Nil
  then show ?case by (simp add: counter_into_def firsts_into_def)
next
  case (Cons p ps)
  obtain b n where p: "p = (b, n)" by (cases p)
  have "counter_into (p # ps) ctr = counter_into ps (counter_add b n ctr)"
    by (simp add: counter_into_def p)
  moreover have "firsts_into (map fst (p # ps)) (map fst ctr)
      = firsts_into (map fst ps) (map fst (counter_add b n ctr))"
    by (simp add: firsts_into_def p counter_add_keys_list)
  ultimately show ?case using Cons by simp
qed

lemma cnt_counter_add:
  "cnt (counter_add b n ctr) b' = (if b' = b then cnt ctr b + n else cnt ctr b')"
  by (induction ctr) (auto simp: cnt_def)

lemma cnt_counter_into:
  "cnt (counter_into ps ctr) b = cnt ctr b + sum_list (map snd (filter (\<lambda>p. fst p = b) ps))"
proof (induction ps arbitrary: ctr)
  case Nil
  then show ?case by (simp add: counter_into_def)
next
  case (Cons p ps)
  obtain b' n where p: "p = (b', n)" by (cases p)
  have "counter_into (p # ps) ctr = counter_into ps (counter_add b' n ctr)"
    by (simp add: counter_into_def p)
  then show ?case using Cons [of "counter_add b' n ctr"]
    by (auto simp: p cnt_counter_add)
qed

lemma cnt_member: "distinct (map fst ctr) \<Longrightarrow> (b, m) \<in> set ctr \<Longrightarrow> cnt ctr b = m"
  by (simp add: cnt_def)

lemma tally_into_keys:
  "map fst (tally_into ws counts) = firsts_into (map fst ws) (map fst counts)"
proof (induction ws arbitrary: counts)
  case Nil
  then show ?case by (simp add: tally_into_def firsts_into_def)
next
  case (Cons w ws)
  obtain a b n where w: "w = (a, b, n)" by (cases w)
  have "tally_into (w # ws) counts = tally_into ws (counts_add a b n counts)"
    by (simp add: tally_into_def w)
  moreover have "firsts_into (map fst (w # ws)) (map fst counts)
      = firsts_into (map fst ws) (map fst (counts_add a b n counts))"
    by (simp add: firsts_into_def w counts_add_keys_list)
  ultimately show ?case using Cons by simp
qed

lemma ctr_of_counts_add:
  "ctr_of (counts_add a b n counts) a' =
     (if a' = a then counter_add b n (ctr_of counts a) else ctr_of counts a')"
  by (induction counts) (auto simp: ctr_of_def)

lemma ctr_of_tally_into:
  "ctr_of (tally_into ws counts) a =
     counter_into (map snd (filter (\<lambda>w. fst w = a) ws)) (ctr_of counts a)"
proof (induction ws arbitrary: counts)
  case Nil
  then show ?case by (simp add: tally_into_def counter_into_def)
next
  case (Cons w ws)
  obtain a' b n where w: "w = (a', b, n)" by (cases w)
  have "tally_into (w # ws) counts = tally_into ws (counts_add a' b n counts)"
    by (simp add: tally_into_def w)
  then show ?case using Cons [of "counts_add a' b n counts"]
    by (auto simp: w ctr_of_counts_add counter_into_def)
qed

(* the most common entry *)

lemma fold_best:
  fixes xs :: "('k \<times> nat) list"
  shows "fold (\<lambda>y best. if snd y > snd best then y else best) xs b = best \<Longrightarrow>
   (best = b \<and> (\<forall>y \<in> set xs. snd y \<le> snd b))
   \<or> (\<exists>xs1 xs2. xs = xs1 @ best # xs2 \<and> snd b < snd best
         \<and> (\<forall>y \<in> set xs1. snd y < snd best) \<and> (\<forall>y \<in> set xs2. snd y \<le> snd best))"
proof (induction xs arbitrary: b)
  case Nil
  then show ?case by simp
next
  case (Cons y ys)
  show ?case
  proof (cases "snd y > snd b")
    case True
    with Cons.prems have "fold (\<lambda>y best. if snd y > snd best then y else best) ys y = best"
      by simp
    from Cons.IH [OF this] show ?thesis
    proof
      assume "best = y \<and> (\<forall>z \<in> set ys. snd z \<le> snd y)"
      then have "y # ys = [] @ best # ys \<and> snd b < snd best
          \<and> (\<forall>z \<in> set []. snd z < snd best) \<and> (\<forall>z \<in> set ys. snd z \<le> snd best)"
        using True by simp
      then show ?thesis by blast
    next
      assume "\<exists>xs1 xs2. ys = xs1 @ best # xs2 \<and> snd y < snd best
         \<and> (\<forall>z \<in> set xs1. snd z < snd best) \<and> (\<forall>z \<in> set xs2. snd z \<le> snd best)"
      then obtain xs1 xs2 where "ys = xs1 @ best # xs2" "snd y < snd best"
        "\<forall>z \<in> set xs1. snd z < snd best" "\<forall>z \<in> set xs2. snd z \<le> snd best" by blast
      then have "y # ys = (y # xs1) @ best # xs2 \<and> snd b < snd best
          \<and> (\<forall>z \<in> set (y # xs1). snd z < snd best) \<and> (\<forall>z \<in> set xs2. snd z \<le> snd best)"
        using True by auto
      then show ?thesis by blast
    qed
  next
    case False
    with Cons.prems have "fold (\<lambda>y best. if snd y > snd best then y else best) ys b = best"
      by simp
    from Cons.IH [OF this] show ?thesis
    proof
      assume "best = b \<and> (\<forall>z \<in> set ys. snd z \<le> snd b)"
      then show ?thesis using False by auto
    next
      assume "\<exists>xs1 xs2. ys = xs1 @ best # xs2 \<and> snd b < snd best
         \<and> (\<forall>z \<in> set xs1. snd z < snd best) \<and> (\<forall>z \<in> set xs2. snd z \<le> snd best)"
      then obtain xs1 xs2 where "ys = xs1 @ best # xs2" "snd b < snd best"
        "\<forall>z \<in> set xs1. snd z < snd best" "\<forall>z \<in> set xs2. snd z \<le> snd best" by blast
      then have "y # ys = (y # xs1) @ best # xs2 \<and> snd b < snd best
          \<and> (\<forall>z \<in> set (y # xs1). snd z < snd best) \<and> (\<forall>z \<in> set xs2. snd z \<le> snd best)"
        using False by auto
      then show ?thesis by blast
    qed
  qed
qed

lemma most_common1_first_max:
  assumes "most_common1 ctr = Inr best"
  shows "\<exists>xs ys. ctr = xs @ best # ys
           \<and> (\<forall>y \<in> set xs. snd y < snd best) \<and> (\<forall>y \<in> set ys. snd y \<le> snd best)"
proof (cases ctr)
  case Nil
  with assms show ?thesis by simp
next
  case (Cons x xs)
  with assms have "fold (\<lambda>y best. if snd y > snd best then y else best) xs x = best" by simp
  from fold_best [OF this] show ?thesis
  proof
    assume "best = x \<and> (\<forall>y \<in> set xs. snd y \<le> snd x)"
    then have "ctr = [] @ best # xs \<and> (\<forall>y \<in> set []. snd y < snd best)
        \<and> (\<forall>y \<in> set xs. snd y \<le> snd best)"
      using Cons by simp
    then show ?thesis by blast
  next
    assume "\<exists>xs1 xs2. xs = xs1 @ best # xs2 \<and> snd x < snd best
         \<and> (\<forall>y \<in> set xs1. snd y < snd best) \<and> (\<forall>y \<in> set xs2. snd y \<le> snd best)"
    then obtain xs1 xs2 where "xs = xs1 @ best # xs2" "snd x < snd best"
      "\<forall>y \<in> set xs1. snd y < snd best" "\<forall>y \<in> set xs2. snd y \<le> snd best" by blast
    then have "ctr = (x # xs1) @ best # xs2 \<and> (\<forall>y \<in> set (x # xs1). snd y < snd best)
        \<and> (\<forall>y \<in> set xs2. snd y \<le> snd best)"
      using Cons by auto
    then show ?thesis by blast
  qed
qed

lemma choose_most_common_lookup:
  "choose_most_common counts = Inr chosen \<Longrightarrow> map_of chosen a = Some b \<Longrightarrow>
   \<exists>m. most_common1 (ctr_of counts a) = Inr (b, m)"
proof (induction counts arbitrary: chosen rule: choose_most_common.induct)
  case 1
  then show ?case by simp
next
  case (2 k ctr rest)
  from "2.prems"(1) obtain best chosen' where
    b: "most_common1 ctr = Inr best" and c: "choose_most_common rest = Inr chosen'"
    and ch: "chosen = (k, fst best) # chosen'"
    by (auto split: sum.splits)
  show ?case
  proof (cases "a = k")
    case True
    with "2.prems"(2) ch have "fst best = b" by simp
    with b True show ?thesis by (cases best) (auto simp: ctr_of_def)
  next
    case False
    with "2.prems"(2) ch have "map_of chosen' a = Some b" by simp
    from "2.IH" [OF b c this] False show ?thesis by (simp add: ctr_of_def)
  qed
qed

(* the chosen partner of a key, for any list of weighted observations *)

lemma winner:
  assumes ch: "choose_most_common (tally_into ws []) = Inr chosen" and ab: "map_of chosen a = Some b"
  defines "ps \<equiv> map snd (filter (\<lambda>w. fst w = a) ws)"
  shows "b \<in> set (map fst ps)"
    and "\<And>b'. weight ps b' \<le> weight ps b"
    and "\<And>b'. b' \<noteq> b \<Longrightarrow> b' \<in> set (map fst ps) \<Longrightarrow> weight ps b' = weight ps b \<Longrightarrow>
              \<exists>pre post. map fst ps = pre @ b # post \<and> b' \<notin> set pre"
proof -
  define ctr where "ctr = ctr_of (tally_into ws []) a"
  from choose_most_common_lookup [OF ch ab] obtain m where mc: "most_common1 ctr = Inr (b, m)"
    by (auto simp: ctr_def)
  have ctr: "ctr = counter_into ps []"
    by (simp add: ctr_def ps_def ctr_of_tally_into) (simp add: ctr_of_def)
  have keys: "map fst ctr = firsts_into (map fst ps) []"
    by (simp add: ctr counter_into_keys)
  have dist: "distinct (map fst ctr)"
    by (simp add: keys distinct_firsts_into)
  have keyset: "set (map fst ctr) = set (map fst ps)"
    by (simp add: keys set_firsts_into)
  have w: "cnt ctr b' = weight ps b'" for b'
    by (simp add: ctr cnt_counter_into weight_def) (simp add: cnt_def)
  from most_common1_first_max [OF mc] obtain xs ys where
    sp: "ctr = xs @ (b, m) # ys" and lt: "\<forall>y \<in> set xs. snd y < m" and le: "\<forall>y \<in> set ys. snd y \<le> m"
    by auto
  have bm: "weight ps b = m"
    using cnt_member [OF dist, of b m] sp w by simp
  have in_keys: "b \<in> set (map fst ps)"
    using sp keyset by (metis in_set_conv_decomp list.set_map rev_image_eqI fst_conv)
  have max: "weight ps b' \<le> m" for b'
  proof (cases "map_of ctr b'")
    case None
    then show ?thesis using w [of b'] by (simp add: cnt_def)
  next
    case (Some m')
    then have "(b', m') \<in> set ctr" by (rule map_of_SomeD)
    with sp lt le have "m' \<le> m" by fastforce
    with Some show ?thesis using w [of b'] by (simp add: cnt_def)
  qed
  have tie: "\<exists>pre post. map fst ps = pre @ b # post \<and> b' \<notin> set pre"
    if t: "b' \<noteq> b" "b' \<in> set (map fst ps)" "weight ps b' = weight ps b" for b'
  proof -
    from t(2) keyset obtain m' where m': "(b', m') \<in> set ctr" by fastforce
    with dist t(3) bm have "m' = m" using cnt_member w by metis
    with m' sp lt t(1) have "(b', m) \<in> set ys" by fastforce
    then have "b' \<in> set (map fst ys)" by force
    moreover have "firsts_into (map fst ps) [] = map fst xs @ b # map fst ys"
      using keys sp by simp
    ultimately show ?thesis using firsts_order by fastforce
  qed
  show "b \<in> set (map fst ps)" by (rule in_keys)
  show "weight ps b' \<le> weight ps b" for b' using max [of b'] bm by simp
  show "\<exists>pre post. map fst ps = pre @ b # post \<and> b' \<notin> set pre"
    if "b' \<noteq> b" "b' \<in> set (map fst ps)" "weight ps b' = weight ps b" for b'
    using tie [OF that] .
qed

(* the weighted observations of the walk *)

lemma occurs_beforeI:
  "xs = pre @ x # post \<Longrightarrow> y \<notin> set pre \<Longrightarrow> x \<noteq> y \<Longrightarrow> occurs_before xs x y"
proof -
  assume xs: "xs = pre @ x # post" and y: "y \<notin> set pre" and ne: "x \<noteq> y"
  have "takeWhile (\<lambda>z. z \<noteq> y) (pre @ x # post) = pre @ takeWhile (\<lambda>z. z \<noteq> y) (x # post)"
    using y by (intro takeWhile_append2) auto
  with xs ne show ?thesis by (simp add: occurs_before_def)
qed

lemma obs_partner_weight:
  "weight (map snd (filter (\<lambda>w. fst w = u) (map (\<lambda>(u, c). (u, c, 1)) obs))) c
     = count_list obs (u, c)"
  by (induction obs) (auto simp: weight_def)

lemma obs_partner_keys:
  "map fst (map snd (filter (\<lambda>w. fst w = u) (map (\<lambda>(u, c). (u, c, 1)) obs)))
     = map snd (filter (\<lambda>p. fst p = u) obs)"
  by (induction obs) auto

lemma partner_order:
  "map snd (filter (\<lambda>p. fst p = u) obs) = pre @ c # post \<Longrightarrow> c' \<notin> set pre \<Longrightarrow> c \<noteq> c' \<Longrightarrow>
   occurs_before obs (u, c) (u, c')"
proof (induction obs arbitrary: pre)
  case Nil
  then show ?case by simp
next
  case (Cons p obs)
  show ?case
  proof (cases "fst p = u")
    case False
    with Cons.prems have "map snd (filter (\<lambda>p. fst p = u) obs) = pre @ c # post" by simp
    from Cons.IH [OF this Cons.prems(2,3)] False show ?thesis
      by (auto simp: occurs_before_def)
  next
    case True
    show ?thesis
    proof (cases pre)
      case Nil
      with Cons.prems True have "p = (u, c)" by (cases p) auto
      with Cons.prems(3) show ?thesis by (simp add: occurs_before_def)
    next
      case (Cons q pre')
      with Cons.prems True have q: "snd p = q" "q \<noteq> c'"
        and r: "map snd (filter (\<lambda>p. fst p = u) obs) = pre' @ c # post" "c' \<notin> set pre'"
        by auto
      from Cons.IH [OF r Cons.prems(3)] q True show ?thesis
        by (cases p) (auto simp: occurs_before_def)
    qed
  qed
qed

subsection \<open>The table from units to characters and the reversed counters\<close>

lemma forward_choice:
  assumes "choose_most_common (tally_into (map (\<lambda>(u, c). (u, c, 1)) obs) []) = Inr chosen"
    and "map_of chosen u = Some c"
  shows "(u, c) \<in> set obs
       \<and> (\<forall>c'. count_list obs (u, c') \<le> count_list obs (u, c))
       \<and> (\<forall>c'. c' \<noteq> c \<and> count_list obs (u, c') = count_list obs (u, c) \<longrightarrow>
              occurs_before obs (u, c) (u, c'))"
proof -
  define ps where "ps = map snd (filter (\<lambda>w. fst w = u) (map (\<lambda>(u, c). (u, c, 1::nat)) obs))"
  define seen where "seen = map snd (filter (\<lambda>p. fst p = u) obs)"
  note w1 = winner(1) [OF assms, folded ps_def]
    and w2 = winner(2) [OF assms, folded ps_def]
    and w3 = winner(3) [OF assms, folded ps_def]
  have keys: "map fst ps = seen"
    unfolding ps_def seen_def by (rule obs_partner_keys)
  have mem: "c' \<in> set seen \<longleftrightarrow> (u, c') \<in> set obs" for c'
    unfolding seen_def by force
  have wt: "weight ps c' = count_list obs (u, c')" for c'
    unfolding ps_def by (rule obs_partner_weight)
  have 1: "(u, c) \<in> set obs" using w1 mem [of c] by (simp only: keys)
  have 2: "count_list obs (u, c') \<le> count_list obs (u, c)" for c'
    using w2 [of c'] by (simp only: wt)
  have 3: "occurs_before obs (u, c) (u, c')"
    if ne: "c' \<noteq> c" and eq: "count_list obs (u, c') = count_list obs (u, c)" for c'
  proof -
    from 1 have "count_list obs (u, c) \<noteq> 0" by (simp add: count_list_0_iff)
    with eq have "count_list obs (u, c') \<noteq> 0" by simp
    then have "(u, c') \<in> set obs" by (simp add: count_list_0_iff)
    then have m: "c' \<in> set (map fst ps)" using mem [of c'] by (simp only: keys)
    have "weight ps c' = weight ps c" using eq by (simp only: wt)
    from w3 [OF ne m this] obtain pre post where
      "map fst ps = pre @ c # post" "c' \<notin> set pre" by blast
    then have "map snd (filter (\<lambda>p. fst p = u) obs) = pre @ c # post"
      by (simp only: keys seen_def)
    from partner_order [OF this \<open>c' \<notin> set pre\<close>] ne show ?thesis by blast
  qed
  show ?thesis using 1 2 3 by blast
qed

lemma reverse_counts_tally: "reverse_counts counts = tally_into (rev_obs counts) []"
proof -
  have "fold (\<lambda>(a, b, n). counts_add a b n) (rev_obs counts) rc
      = fold (\<lambda>(u, ctr) rev_counts. fold (\<lambda>(ch, n) rc. counts_add ch u n rc) ctr rev_counts) counts rc"
    for rc
  proof (induction counts arbitrary: rc)
    case Nil
    then show ?case by (simp add: rev_obs_def)
  next
    case (Cons p counts)
    obtain u ctr where p: "p = (u, ctr)" by (cases p)
    have "rev_obs (p # counts) = map (\<lambda>(ch, n). (ch, u, n)) ctr @ rev_obs counts"
      by (simp add: rev_obs_def p)
    moreover have "fold (\<lambda>(a, b, n). counts_add a b n) (map (\<lambda>(ch, n). (ch, u, n)) ctr) rc
        = fold (\<lambda>(ch, n) rc. counts_add ch u n rc) ctr rc" for rc
      by (induction ctr arbitrary: rc) auto
    ultimately show ?case using Cons by (simp add: p)
  qed
  then show ?thesis by (simp add: reverse_counts_def tally_into_def)
qed

lemma rev_obs_holders:
  "map snd (filter (\<lambda>w. fst w = ch) (rev_obs counts)) = holders ch counts"
proof (induction counts)
  case Nil
  then show ?case by (simp add: rev_obs_def holders_def)
next
  case (Cons p counts)
  obtain u ctr where p: "p = (u, ctr)" by (cases p)
  have "map snd (filter (\<lambda>w. fst w = ch) (map (\<lambda>(c, n). (c, u, n)) ctr))
      = map (\<lambda>(c, n). (u, n)) (filter (\<lambda>p. fst p = ch) ctr)"
    by (induction ctr) auto
  with Cons show ?case by (simp add: rev_obs_def holders_def p)
qed

lemma filter_key_distinct:
  "distinct (map fst ctr) \<Longrightarrow>
   filter (\<lambda>p. fst p = ch) ctr = (case map_of ctr ch of None \<Rightarrow> [] | Some m \<Rightarrow> [(ch, m)])"
proof (induction ctr)
  case Nil
  then show ?case by simp
next
  case (Cons p ctr)
  obtain c n where p: "p = (c, n)" by (cases p)
  show ?case
  proof (cases "c = ch")
    case True
    with Cons.prems p have "ch \<notin> fst ` set ctr" by auto
    then have "filter (\<lambda>p. fst p = ch) ctr = []"
      by (auto simp: filter_empty_conv)
    with True p show ?thesis by simp
  next
    case False
    with Cons p show ?thesis by simp
  qed
qed

lemma holders_Cons:
  "distinct (map fst ctr) \<Longrightarrow>
   holders ch ((u, ctr) # counts) =
     (case map_of ctr ch of None \<Rightarrow> [] | Some m \<Rightarrow> [(u, m)]) @ holders ch counts"
  by (simp add: holders_def filter_key_distinct split: option.splits)

lemma holders_subseq:
  "\<forall>(u, ctr) \<in> set counts. distinct (map fst ctr) \<Longrightarrow>
   subseq (map fst (holders ch counts)) (map fst counts)"
proof (induction counts)
  case Nil
  then show ?case by (simp add: holders_def)
next
  case (Cons p counts)
  obtain u ctr where p: "p = (u, ctr)" by (cases p)
  with Cons.prems have d: "distinct (map fst ctr)" by simp
  from Cons have "subseq (map fst (holders ch counts)) (map fst counts)" by simp
  then show ?case
    by (auto simp: p holders_Cons [OF d] split: option.splits)
qed

lemma holders_units: "fst ` set (holders ch counts) \<subseteq> fst ` set counts"
proof (induction counts)
  case Nil
  then show ?case by (simp add: holders_def)
next
  case (Cons p counts)
  obtain u ctr where p: "p = (u, ctr)" by (cases p)
  have "holders ch (p # counts)
      = map (\<lambda>(c, n). (u, n)) (filter (\<lambda>p. fst p = ch) ctr) @ holders ch counts"
    by (simp add: holders_def p)
  moreover have "fst ` set (map (\<lambda>(c, n). (u, n)) xs) \<subseteq> {u}" for xs :: "('b \<times> nat) list"
    by (induction xs) auto
  ultimately show ?case using Cons p by auto
qed

lemma holders_absent:
  assumes "u \<notin> fst ` set counts"
  shows "u \<notin> fst ` set (holders ch counts)"
proof
  assume "u \<in> fst ` set (holders ch counts)"
  then have "u \<in> fst ` set counts" by (rule subsetD [OF holders_units])
  with assms show False by simp
qed

lemma weight_absent: "b \<notin> fst ` set ps \<Longrightarrow> weight ps b = 0"
  by (induction ps) (auto simp: weight_def)

lemma weight_append: "weight (ps @ qs) b = weight ps b + weight qs b"
  by (simp add: weight_def)

lemma weight_positive_member: "0 < weight ps b \<Longrightarrow> b \<in> set (map fst ps)"
  using weight_absent [of b ps] by force

lemma holders_weight:
  "distinct (map fst counts) \<Longrightarrow> \<forall>(u, ctr) \<in> set counts. distinct (map fst ctr) \<Longrightarrow>
   weight (holders ch counts) u = cnt (ctr_of counts u) ch"
proof (induction counts)
  case Nil
  then show ?case by (simp add: holders_def weight_def ctr_of_def cnt_def)
next
  case (Cons p counts)
  obtain u' ctr where p: "p = (u', ctr)" by (cases p)
  with Cons.prems have d: "distinct (map fst ctr)" and nk: "u' \<notin> fst ` set counts" by auto
  have ih: "weight (holders ch counts) u = cnt (ctr_of counts u) ch"
    using Cons by simp
  show ?case
  proof (cases "u = u'")
    case True
    have "weight (holders ch counts) u' = 0"
      using holders_absent [OF nk] by (rule weight_absent)
    with True show ?thesis
      by (simp add: p holders_Cons [OF d] weight_append ctr_of_def)
         (simp add: weight_def cnt_def split: option.splits)
  next
    case False
    with ih show ?thesis
      by (simp add: p holders_Cons [OF d] weight_append ctr_of_def)
         (simp add: weight_def split: option.splits)
  qed
qed

lemma subseq_order:
  assumes "subseq ys xs" "ys = pre @ u # post" "u' \<in> set post"
  shows "\<exists>pre' post'. xs = pre' @ u # post' \<and> u' \<in> set post'"
proof -
  from assms(1,2) have "list_emb (=) (pre @ (u # post)) xs" by simp
  from list_emb_appendD [OF this] obtain xs1 xs2 where
    x: "xs = xs1 @ xs2" and s2: "list_emb (=) (u # post) xs2" by blast
  from list_emb_ConsD [OF s2] obtain a v b where
    ab: "xs2 = a @ v # b" and uv: "u = v" and sb: "list_emb (=) post b" by blast
  from list_emb_set [OF sb assms(3)] have "u' \<in> set b" by auto
  with x ab uv have "xs = (xs1 @ a) @ u # b \<and> u' \<in> set b" by simp
  then show ?thesis by blast
qed

subsection \<open>The table from characters to units\<close>

lemma map_const_fst:
  "u \<in> fst ` set (map (\<lambda>(c, n). (u', n)) xs) \<Longrightarrow> u = u' \<and> xs \<noteq> []"
  by (induction xs) auto

lemma holders_member:
  "u \<in> fst ` set (holders ch counts) \<Longrightarrow> \<exists>ctr n. (u, ctr) \<in> set counts \<and> (ch, n) \<in> set ctr"
proof (induction counts)
  case Nil
  then show ?case by (simp add: holders_def)
next
  case (Cons p counts)
  obtain u' ctr where p: "p = (u', ctr)" by (cases p)
  have h: "holders ch (p # counts)
      = map (\<lambda>(c, n). (u', n)) (filter (\<lambda>p. fst p = ch) ctr) @ holders ch counts"
    by (simp add: holders_def p)
  from Cons.prems have
    "u \<in> fst ` set (map (\<lambda>(c, n). (u', n)) (filter (\<lambda>p. fst p = ch) ctr))
     \<or> u \<in> fst ` set (holders ch counts)"
    unfolding h by (simp add: image_Un)
  then show ?case
  proof
    assume "u \<in> fst ` set (map (\<lambda>(c, n). (u', n)) (filter (\<lambda>p. fst p = ch) ctr))"
    from map_const_fst [OF this] have uu: "u = u'" and ne: "filter (\<lambda>p. fst p = ch) ctr \<noteq> []"
      by simp_all
    from ne obtain n where "(ch, n) \<in> set ctr"
      by (auto simp: filter_empty_conv)
    with uu p show ?thesis by auto
  next
    assume "u \<in> fst ` set (holders ch counts)"
    from Cons.IH [OF this] show ?thesis by auto
  qed
qed

lemma tally_obs_facts:
  fixes obs :: "(nat \<times> uchar) list"
  defines "counts \<equiv> tally_into (map (\<lambda>(u, c). (u, c, 1)) obs) []"
  shows "distinct (map fst counts)"
    and "map fst counts = firsts_into (map fst obs) []"
    and "\<And>u. distinct (map fst (ctr_of counts u))"
    and "\<And>u. set (map fst (ctr_of counts u)) = {c. (u, c) \<in> set obs}"
    and "\<And>u c. cnt (ctr_of counts u) c = count_list obs (u, c)"
proof -
  have m: "map fst (map (\<lambda>(u, c). (u, c, 1::nat)) obs) = map fst obs"
    by (induction obs) auto
  show k: "map fst counts = firsts_into (map fst obs) []"
    unfolding counts_def tally_into_keys m by simp
  show "distinct (map fst counts)"
    by (simp add: k distinct_firsts_into)
  have c: "ctr_of counts u
      = counter_into (map snd (filter (\<lambda>w. fst w = u) (map (\<lambda>(u, c). (u, c, 1)) obs))) []" for u
    by (simp add: counts_def ctr_of_tally_into) (simp add: ctr_of_def)
  show "distinct (map fst (ctr_of counts u))" for u
    by (simp add: c counter_into_keys distinct_firsts_into)
  show "set (map fst (ctr_of counts u)) = {c. (u, c) \<in> set obs}" for u
    unfolding c counter_into_keys set_firsts_into obs_partner_keys by force
  show "cnt (ctr_of counts u) c = count_list obs (u, c)" for u c
    unfolding c cnt_counter_into
    using obs_partner_weight [of u obs c] by (simp add: weight_def cnt_def)
qed

lemma ctr_of_member:
  "distinct (map fst counts) \<Longrightarrow> (u, ctr) \<in> set counts \<Longrightarrow> ctr_of counts u = ctr"
  by (simp add: ctr_of_def)

lemma reverse_choice:
  fixes obs :: "(nat \<times> uchar) list"
  assumes "choose_most_common (reverse_counts (tally_into (map (\<lambda>(u, c). (u, c, 1)) obs) []))
             = Inr chosen"
    and "map_of chosen ch = Some u"
  shows "(u, ch) \<in> set obs
       \<and> (\<forall>u'. count_list obs (u', ch) \<le> count_list obs (u, ch))
       \<and> (\<forall>u'. u' \<noteq> u \<and> count_list obs (u', ch) = count_list obs (u, ch) \<longrightarrow>
              occurs_before (map fst obs) u u')"
proof -
  define counts where "counts = tally_into (map (\<lambda>(u, c). (u, c, 1::nat)) obs) []"
  define hs where "hs = holders ch counts"
  note f = tally_obs_facts [of obs, folded counts_def]
  have inner: "\<forall>(u, ctr) \<in> set counts. distinct (map fst ctr)"
    using f(1) f(3) ctr_of_member by fastforce
  from assms(1) have ch: "choose_most_common (tally_into (rev_obs counts) []) = Inr chosen"
    by (simp add: reverse_counts_tally counts_def)
  have hs: "map snd (filter (\<lambda>w. fst w = ch) (rev_obs counts)) = hs"
    by (simp add: hs_def rev_obs_holders)
  note w1 = winner(1) [OF ch assms(2), unfolded hs]
    and w2 = winner(2) [OF ch assms(2), unfolded hs]
    and w3 = winner(3) [OF ch assms(2), unfolded hs]
  have wt: "weight hs u' = count_list obs (u', ch)" for u'
    unfolding hs_def using holders_weight [OF f(1) inner] f(5) by simp
  have 1: "(u, ch) \<in> set obs"
  proof -
    from w1 have "u \<in> fst ` set (holders ch counts)" by (simp add: hs_def)
    from holders_member [OF this] obtain ctr n where
      "(u, ctr) \<in> set counts" "(ch, n) \<in> set ctr" by blast
    then have "ch \<in> set (map fst (ctr_of counts u))"
      using ctr_of_member [OF f(1)] by force
    then show ?thesis by (simp only: f(4)) simp
  qed
  have 2: "count_list obs (u', ch) \<le> count_list obs (u, ch)" for u'
    using w2 [of u'] by (simp only: wt)
  have 3: "occurs_before (map fst obs) u u'"
    if ne: "u' \<noteq> u" and eq: "count_list obs (u', ch) = count_list obs (u, ch)" for u'
  proof -
    from 1 have "count_list obs (u, ch) \<noteq> 0" by (simp add: count_list_0_iff)
    with eq have "0 < weight hs u'" by (simp add: wt)
    then have m: "u' \<in> set (map fst hs)" by (rule weight_positive_member)
    have "weight hs u' = weight hs u" using eq by (simp only: wt)
    from w3 [OF ne m this] obtain pre post where
      sp: "map fst hs = pre @ u # post" and np: "u' \<notin> set pre" by blast
    with m ne have "u' \<in> set post" by auto
    from subseq_order [OF holders_subseq [OF inner, of ch, folded hs_def] sp this]
    obtain pre' post' where "map fst counts = pre' @ u # post'" "u' \<in> set post'" by blast
    with f(2) have "firsts_into (map fst obs) [] = pre' @ u # post'" by simp
    from firsts_order [OF this \<open>u' \<in> set post'\<close>] obtain p q where
      "map fst obs = p @ u # q" "u' \<notin> set p" by blast
    then show ?thesis using ne by (intro occurs_beforeI) auto
  qed
  show ?thesis using 1 2 3 by blast
qed

subsection \<open>The learned tables\<close>

lemma learn_mapping_structure:
  assumes "learn_mapping_from_pair data txt_text = Inr (unit_to_char, char_to_unit)"
  defines "obs \<equiv> training_observations data txt_text"
  defines "counts \<equiv> tally_into (map (\<lambda>(u, c). (u, c, 1)) obs) []"
  shows "choose_most_common counts = Inr unit_to_char"
    and "choose_most_common (reverse_counts counts) = Inr char_to_unit"
proof -
  from assms(1) obtain ubs where ubs: "read_all_blocks_units data = Inr ubs"
    by (auto simp: learn_mapping_from_pair_def split: sum.splits)
  have o: "obs = observe_blocks (zip ubs (split_txt_into_blocks txt_text))"
    by (simp add: obs_def training_observations_def ubs)
  have c: "counts = align_blocks (zip ubs (split_txt_into_blocks txt_text)) []"
    by (simp add: counts_def o align_blocks_tally)
  from assms(1) ubs show "choose_most_common counts = Inr unit_to_char"
    and "choose_most_common (reverse_counts counts) = Inr char_to_unit"
    unfolding c
    by (auto simp: learn_mapping_from_pair_def Let_def split: sum.splits if_splits)
qed

lemma char_keys_tally:
  fixes obs :: "(nat \<times> uchar) list"
  shows "char_keys (tally_into (map (\<lambda>(u, c). (u, c, 1)) obs) []) = snd ` set obs"
proof -
  define counts where "counts = tally_into (map (\<lambda>(u, c). (u, c, 1::nat)) obs) []"
  note f = tally_obs_facts [of obs, folded counts_def]
  have keys: "set (map fst counts) = fst ` set obs"
    by (simp add: f(2) set_firsts_into)
  have "char_keys counts = snd ` set obs"
  proof (intro set_eqI iffI)
    fix c assume "c \<in> char_keys counts"
    then obtain u ctr where m: "(u, ctr) \<in> set counts" and "c \<in> fst ` set ctr"
      by (auto simp: char_keys_def)
    then have "c \<in> set (map fst (ctr_of counts u))"
      using ctr_of_member [OF f(1) m] by simp
    then have "(u, c) \<in> set obs" by (simp only: f(4)) simp
    then show "c \<in> snd ` set obs" by force
  next
    fix c assume "c \<in> snd ` set obs"
    then obtain u where uc: "(u, c) \<in> set obs" by auto
    then have "u \<in> set (map fst counts)" unfolding keys by force
    then obtain ctr where m: "(u, ctr) \<in> set counts" by auto
    have "c \<in> set (map fst (ctr_of counts u))" using uc by (simp only: f(4)) simp
    then have "c \<in> fst ` set ctr" using ctr_of_member [OF f(1) m] by simp
    with m show "c \<in> char_keys counts" by (auto simp: char_keys_def)
  qed
  then show ?thesis by (simp add: counts_def)
qed

text \<open>
  Claim C9, as amended. Training is a function of the binary and the reference text, so
  two runs on the same pair return the same two tables.  The tables hold one entry for
  each observed unit and one for each observed character.  The character chosen for a
  unit is one that was observed with it most often, and among the characters tied for
  that count it is the one whose first observation with this unit comes first.  The unit
  chosen for a character is one that was observed with it most often, and among the
  units tied for that count it is the one that the walk met first, with any character.
\<close>

theorem training_choices:
  assumes "learn_mapping_from_pair data txt_text = Inr (unit_to_char, char_to_unit)"
    and "obs = training_observations data txt_text"
  shows "distinct (map fst unit_to_char) \<and> fst ` set unit_to_char = fst ` set obs
       \<and> distinct (map fst char_to_unit) \<and> fst ` set char_to_unit = snd ` set obs
       \<and> (map_of unit_to_char u = Some c \<longrightarrow>
            (u, c) \<in> set obs
            \<and> (\<forall>c'. count_list obs (u, c') \<le> count_list obs (u, c))
            \<and> (\<forall>c'. c' \<noteq> c \<and> count_list obs (u, c') = count_list obs (u, c) \<longrightarrow>
                   occurs_before obs (u, c) (u, c')))
       \<and> (map_of char_to_unit c = Some u \<longrightarrow>
            (u, c) \<in> set obs
            \<and> (\<forall>u'. count_list obs (u', c) \<le> count_list obs (u, c))
            \<and> (\<forall>u'. u' \<noteq> u \<and> count_list obs (u', c) = count_list obs (u, c) \<longrightarrow>
                   occurs_before (map fst obs) u u'))"
proof -
  define counts where "counts = tally_into (map (\<lambda>(u, c). (u, c, 1::nat)) obs) []"
  note s = learn_mapping_structure [OF assms(1), folded assms(2), folded counts_def]
  note f = tally_obs_facts [of obs, folded counts_def]
  have k1: "map fst unit_to_char = map fst counts"
    by (rule choose_most_common_keys [OF s(1)])
  have k2: "map fst char_to_unit = map fst (reverse_counts counts)"
    by (rule choose_most_common_keys [OF s(2)])
  have d1: "distinct (map fst unit_to_char)" by (simp add: k1 f(1))
  have e1: "fst ` set unit_to_char = fst ` set obs"
    using arg_cong [OF k1, of set] by (simp add: f(2) set_firsts_into)
  have d2: "distinct (map fst char_to_unit)"
    by (simp add: k2 reverse_counts_tally tally_into_keys distinct_firsts_into)
  have "fst ` set char_to_unit = unit_keys (reverse_counts counts)"
    using arg_cong [OF k2, of set] by (simp add: unit_keys_def)
  also have "\<dots> = char_keys counts" by (rule reverse_counts_unit_keys)
  also have "\<dots> = snd ` set obs" unfolding counts_def by (rule char_keys_tally)
  finally have e2: "fst ` set char_to_unit = snd ` set obs" .
  have fw: "map_of unit_to_char u = Some c \<longrightarrow>
            (u, c) \<in> set obs
            \<and> (\<forall>c'. count_list obs (u, c') \<le> count_list obs (u, c))
            \<and> (\<forall>c'. c' \<noteq> c \<and> count_list obs (u, c') = count_list obs (u, c) \<longrightarrow>
                   occurs_before obs (u, c) (u, c'))"
    using forward_choice [OF s(1) [unfolded counts_def]] by blast
  have bw: "map_of char_to_unit c = Some u \<longrightarrow>
            (u, c) \<in> set obs
            \<and> (\<forall>u'. count_list obs (u', c) \<le> count_list obs (u, c))
            \<and> (\<forall>u'. u' \<noteq> u \<and> count_list obs (u', c) = count_list obs (u, c) \<longrightarrow>
                   occurs_before (map fst obs) u u')"
    using reverse_choice [OF s(2) [unfolded counts_def]] by blast
  show ?thesis using d1 e1 d2 e2 fw bw by blast
qed

lemmas observe_eval = training_observations_def occurs_before_def

lemma ex1_learn:
  "learn_mapping_from_pair
     [0x00, 0x0E, 0x00, 0x01, 0x00, 0x00, 0x00, 0x03, 0x01, 0x01, 0x01, 0x02, 0x01, 0x01]
     (ustr ''pqq'')
   = Inr ([(0x101, 0x70), (0x102, 0x71)], [(0x70, 0x101), (0x71, 0x101)])"
  by (simp add: trainer_eval container_eval en_eval jp_eval)

lemma ex1_obs:
  "training_observations
     [0x00, 0x0E, 0x00, 0x01, 0x00, 0x00, 0x00, 0x03, 0x01, 0x01, 0x01, 0x02, 0x01, 0x01]
     (ustr ''pqq'')
   = [(0x101, 0x70), (0x102, 0x71), (0x101, 0x71)]"
  by (simp add: observe_eval trainer_eval container_eval en_eval jp_eval)

lemma ex2_learn:
  "learn_mapping_from_pair
     [0x00, 0x0E, 0x00, 0x01, 0x00, 0x00, 0x00, 0x03, 0x01, 0x02, 0x01, 0x01, 0x01, 0x01]
     (ustr ''qpq'')
   = Inr ([(0x102, 0x71), (0x101, 0x70)], [(0x71, 0x102), (0x70, 0x101)])"
  by (simp add: trainer_eval container_eval en_eval jp_eval)

lemma ex2_obs:
  "training_observations
     [0x00, 0x0E, 0x00, 0x01, 0x00, 0x00, 0x00, 0x03, 0x01, 0x02, 0x01, 0x01, 0x01, 0x01]
     (ustr ''qpq'')
   = [(0x102, 0x71), (0x101, 0x70), (0x101, 0x71)]"
  by (simp add: observe_eval trainer_eval container_eval en_eval jp_eval)

text \<open>
  Three units \<^verbatim>\<open>0101 0102 0101\<close> trained against the text \<^verbatim>\<open>pqq\<close>.
\<close>

theorem training_choices_witness:
  "learn_mapping_from_pair
     [0x00, 0x0E, 0x00, 0x01, 0x00, 0x00, 0x00, 0x03, 0x01, 0x01, 0x01, 0x02, 0x01, 0x01]
     (ustr ''pqq'')
   = Inr ([(0x101, 0x70), (0x102, 0x71)], [(0x70, 0x101), (0x71, 0x101)])
   \<and> training_observations
     [0x00, 0x0E, 0x00, 0x01, 0x00, 0x00, 0x00, 0x03, 0x01, 0x01, 0x01, 0x02, 0x01, 0x01]
     (ustr ''pqq'')
   = [(0x101, 0x70), (0x102, 0x71), (0x101, 0x71)]
   \<and> map_of [(0x70, 0x101), (0x71, 0x101 :: nat)] (0x71 :: nat) = Some 0x101
   \<and> occurs_before (map fst [(0x101, 0x70), (0x102, 0x71), (0x101, 0x71 :: nat)]) (0x101 :: nat) 0x102
   \<and> map_of [(0x101, 0x70), (0x102, 0x71 :: nat)] (0x101 :: nat) = Some 0x70
   \<and> occurs_before [(0x101, 0x70), (0x102, 0x71), (0x101, 0x71 :: nat)] (0x101 :: nat, 0x70) (0x101, 0x71)"
  using training_choices [OF ex1_learn ex1_obs [symmetric], of "0x101" "0x70"]
    training_choices [OF ex1_learn ex1_obs [symmetric], of "0x101" "0x71"] ex1_learn ex1_obs
  by (simp add: occurs_before_def)

text \<open>
  No single reading of first-encountered order fits both directions.  In the first
  training pair the units \<^verbatim>\<open>0101\<close> and \<^verbatim>\<open>0102\<close> are each observed once with
  \<^verbatim>\<open>q\<close>, the observation with \<^verbatim>\<open>0102\<close> comes first, and the reverse table gives
  \<^verbatim>\<open>0101\<close>: the reverse tie does not go to the unit first observed with the character.
  In the second pair the unit \<^verbatim>\<open>0101\<close> is observed once with \<^verbatim>\<open>p\<close> and once with
  \<^verbatim>\<open>q\<close>, the walk meets \<^verbatim>\<open>q\<close> before \<^verbatim>\<open>p\<close>, and the forward table gives
  \<^verbatim>\<open>p\<close>: the forward tie does not go to the character that the walk met first.
\<close>

theorem training_choices_counterexample:
  "learn_mapping_from_pair
     [0x00, 0x0E, 0x00, 0x01, 0x00, 0x00, 0x00, 0x03, 0x01, 0x01, 0x01, 0x02, 0x01, 0x01]
     (ustr ''pqq'')
   = Inr ([(0x101, 0x70), (0x102, 0x71)], [(0x70, 0x101), (0x71, 0x101)])
   \<and> training_observations
     [0x00, 0x0E, 0x00, 0x01, 0x00, 0x00, 0x00, 0x03, 0x01, 0x01, 0x01, 0x02, 0x01, 0x01]
     (ustr ''pqq'')
   = [(0x101, 0x70), (0x102, 0x71), (0x101, 0x71)]
   \<and> count_list [(0x101, 0x70), (0x102, 0x71), (0x101, 0x71 :: nat)] (0x102 :: nat, 0x71)
     = count_list [(0x101, 0x70), (0x102, 0x71), (0x101, 0x71 :: nat)] (0x101 :: nat, 0x71)
   \<and> occurs_before [(0x101, 0x70), (0x102, 0x71), (0x101, 0x71 :: nat)] (0x102 :: nat, 0x71) (0x101, 0x71)
   \<and> map_of [(0x70, 0x101), (0x71, 0x101 :: nat)] (0x71 :: nat) = Some 0x101
   \<and> learn_mapping_from_pair
     [0x00, 0x0E, 0x00, 0x01, 0x00, 0x00, 0x00, 0x03, 0x01, 0x02, 0x01, 0x01, 0x01, 0x01]
     (ustr ''qpq'')
   = Inr ([(0x102, 0x71), (0x101, 0x70)], [(0x71, 0x102), (0x70, 0x101)])
   \<and> training_observations
     [0x00, 0x0E, 0x00, 0x01, 0x00, 0x00, 0x00, 0x03, 0x01, 0x02, 0x01, 0x01, 0x01, 0x01]
     (ustr ''qpq'')
   = [(0x102, 0x71), (0x101, 0x70), (0x101, 0x71)]
   \<and> count_list [(0x102, 0x71), (0x101, 0x70), (0x101, 0x71 :: nat)] (0x101 :: nat, 0x71)
     = count_list [(0x102, 0x71), (0x101, 0x70), (0x101, 0x71 :: nat)] (0x101 :: nat, 0x70)
   \<and> occurs_before (map snd [(0x102, 0x71), (0x101, 0x70), (0x101, 0x71 :: nat)]) (0x71 :: nat) 0x70
   \<and> map_of [(0x102, 0x71), (0x101, 0x70 :: nat)] (0x101 :: nat) = Some 0x70"
  using ex1_learn ex1_obs ex2_learn ex2_obs
  by (simp add: occurs_before_def)

end
